theory Spec2Isabelle
  imports Complex_Main "HOL-Library.Word"
begin

section \<open>Typed arrays and numbers\<close>

text \<open>
  The heat buffer \<^verbatim>\<open>#pixels\<close> is a \<^verbatim>\<open>Uint8Array\<close> and the image data
  is a \<^verbatim>\<open>Uint8ClampedArray\<close>: lists of 8-bit words of a fixed length. A store at an
  index outside the array (negative, or at or beyond the length) is dropped silently,
  and a read there is \<^verbatim>\<open>undefined\<close>.
\<close>

type_synonym u8 = "8 word"

definition ta_get :: "u8 list \<Rightarrow> int \<Rightarrow> u8 option" where
  "ta_get a i = (if 0 \<le> i \<and> i < int (length a) then Some (a ! nat i) else None)"

definition ta_set :: "u8 list \<Rightarrow> int \<Rightarrow> u8 \<Rightarrow> u8 list" where
  "ta_set a i v = (if 0 \<le> i \<and> i < int (length a) then a[nat i := v] else a)"

text \<open>Storing a number into a \<^verbatim>\<open>Uint8Array\<close> keeps it modulo 256.\<close>

definition to_uint8 :: "int \<Rightarrow> u8" where
  "to_uint8 n = word_of_int n"

text \<open>Storing a number into a \<^verbatim>\<open>Uint8ClampedArray\<close> clamps it to 0..255.\<close>

definition to_uint8_clamp :: "int \<Rightarrow> u8" where
  "to_uint8_clamp n = word_of_int (max 0 (min 255 n))"

section \<open>The random source\<close>

text \<open>
  \<^verbatim>\<open>Math.random()\<close> returns a number \<open>v\<close> with \<open>0 \<le> v < 1\<close>. The source of
  randomness is the infinite sequence of the values that the successive calls return;
  a call takes the head of the sequence. A value is the rational that the double denotes.
  Comparing a draw with one half is exact; the product of a draw and 3 is rounded as a
  double product is, see below.
\<close>

type_synonym rng = "nat \<Rightarrow> rat"

definition valid_rng :: "rng \<Rightarrow> bool" where
  "valid_rng g = (\<forall>n. 0 \<le> g n \<and> g n < 1)"

definition Math_random :: "rng \<Rightarrow> rat \<times> rng" where
  "Math_random g = (g 0, \<lambda>n. g (Suc n))"

subsection \<open>Double arithmetic on the draws\<close>

text \<open>
  The numbers of the program are IEEE 754 doubles, and \<^verbatim>\<open>Math.random() * 3\<close> is the
  double nearest to the exact product, the even one of two that are equally near. The
  doubles in a binade \<open>[2^e, 2^(e+1))\<close> are the multiples of \<open>2^(e-52)\<close>, down to the
  binade of \<open>2^-1022\<close>, below which they are the multiples of \<open>2^-1074\<close>. The
  spacing is given here for \<open>x < 4\<close>, which holds the products of a draw and 3.
\<close>

definition round_half_even :: "rat \<Rightarrow> int" where
  "round_half_even y =
     (let f = \<lfloor>y\<rfloor>; d = y - of_int f
      in if d < 1 / 2 then f else if 1 / 2 < d then f + 1 else if even f then f else f + 1)"

function binade :: "nat \<Rightarrow> rat \<Rightarrow> nat" where
  "binade k x = (if 1022 \<le> k \<or> 1 / 2 ^ k \<le> x then k else binade (Suc k) x)"
  by pat_completeness auto
termination
  by (relation "measure (\<lambda>(k, x). 1022 - k)") auto

declare binade.simps [simp del]

definition ulp :: "rat \<Rightarrow> rat" where
  "ulp x =
     (if 2 \<le> x then 1 / 2 ^ 51
      else if 1 \<le> x then 1 / 2 ^ 52
      else 1 / 2 ^ (binade 1 x + 52))"

definition to_double :: "rat \<Rightarrow> rat" where
  "to_double x = of_int (round_half_even (x / ulp x)) * ulp x"

definition fmul :: "rat \<Rightarrow> rat \<Rightarrow> rat" where
  "fmul a b = to_double (a * b)"

text \<open>
  A rational below 4 is a double when rounding leaves it as it is. A result of
  \<^verbatim>\<open>Math.random()\<close> is a double that is at least 0 and less than 1.
\<close>

definition is_double :: "rat \<Rightarrow> bool" where
  "is_double x = (to_double x = x)"

definition double_rng :: "rng \<Rightarrow> bool" where
  "double_rng g = (\<forall>n. is_double (g n) \<and> 0 \<le> g n \<and> g n < 1)"

section \<open>The renderer\<close>

datatype error = TypeError | IndexSizeError

text \<open>
  A statement either completes or throws. The object it was mutating is there in both
  cases, in the state the statement left it in.
\<close>

datatype 's result = Return 's | Throw error 's

fun state_of :: "'s result \<Rightarrow> 's" where
  "state_of (Return s) = s"
| "state_of (Throw e s) = s"

fun thrown :: "'s result \<Rightarrow> error option" where
  "thrown (Return s) = None"
| "thrown (Throw e s) = Some e"

text \<open>\<^verbatim>\<open>type Color = [r: number, g: number, b: number, a?: number]\<close>\<close>

datatype color = Color (red: int) (green: int) (blue: int) (alpha: "int option")

type_synonym ColorPallete = "color list"

definition rgb :: "int \<Rightarrow> int \<Rightarrow> int \<Rightarrow> color" where
  "rgb r g b = Color r g b None"

definition DEFAULT_PALLETE :: ColorPallete where
  "DEFAULT_PALLETE =
    [rgb 0x07 0x07 0x07, rgb 0x1F 0x07 0x07, rgb 0x2F 0x0F 0x07, rgb 0x47 0x0F 0x07,
     rgb 0x57 0x17 0x07, rgb 0x67 0x1F 0x07, rgb 0x77 0x1F 0x07, rgb 0x8F 0x27 0x07,
     rgb 0x9F 0x2F 0x07, rgb 0xAF 0x3F 0x07, rgb 0xBF 0x47 0x07, rgb 0xC7 0x47 0x07,
     rgb 0xDF 0x4F 0x07, rgb 0xDF 0x57 0x07, rgb 0xDF 0x57 0x07, rgb 0xD7 0x5F 0x07,
     rgb 0xD7 0x5F 0x07, rgb 0xD7 0x67 0x0F, rgb 0xCF 0x6F 0x0F, rgb 0xCF 0x77 0x0F,
     rgb 0xCF 0x7F 0x0F, rgb 0xCF 0x87 0x17, rgb 0xC7 0x87 0x17, rgb 0xC7 0x8F 0x17,
     rgb 0xC7 0x97 0x1F, rgb 0xBF 0x9F 0x1F, rgb 0xBF 0x9F 0x1F, rgb 0xBF 0xA7 0x27,
     rgb 0xBF 0xA7 0x27, rgb 0xBF 0xAF 0x2F, rgb 0xB7 0xAF 0x2F, rgb 0xB7 0xB7 0x2F,
     rgb 0xB7 0xB7 0x37, rgb 0xCF 0xCF 0x6F, rgb 0xDF 0xDF 0x9F, rgb 0xEF 0xEF 0xC7,
     rgb 0xFF 0xFF 0xFF]"

text \<open>
  The canvas the effect is bound to, as far as the code reads it: its \<^verbatim>\<open>width\<close> and
  \<^verbatim>\<open>height\<close> in pixels (\<open>cwidth\<close> and \<open>cheight\<close> here; \<open>width\<close> and
  \<open>height\<close> are the getters of the renderer). The caller may resize it at any time. A
  bitmap is the content of a canvas or of an image data object: one RGBA quadruple of
  bytes per pixel, in row-major order.
\<close>

record HTMLCanvasElement =
  cwidth :: nat
  cheight :: nat

record bitmap =
  bwidth :: nat
  bheight :: nat
  data :: "u8 list"

text \<open>
  What the canvas shows after \<^verbatim>\<open>clearRect\<close> and \<^verbatim>\<open>drawImage(offscreenCanvas, 0,
  canvas.height - offscreenCanvas.height * scale, canvas.width, offscreenCanvas.height *
  scale)\<close>: the bitmap drawn, and the rectangle of the canvas it is stretched to. The
  renderer's field \<open>shown\<close> holds the last such drawing, \<open>None\<close> before the first.
\<close>

record blit =
  source :: bitmap
  dx :: rat
  dy :: rat
  dw :: rat
  dh :: rat

record Renderer =
  scale :: rat
  pallete :: ColorPallete
  canvas :: HTMLCanvasElement
  offscreenCanvas :: bitmap
  shown :: "blit option"
  pixels :: "u8 list"

text \<open>
  The getters \<^verbatim>\<open>#width\<close> and \<^verbatim>\<open>#height\<close>:
  \<^verbatim>\<open>Math.floor(this.#canvas.width / this.#scale)\<close>. They are read anew at every
  use. The embedding is of a positive scale: the results below assume \<open>0 < scale r\<close>.
\<close>

definition width :: "Renderer \<Rightarrow> nat" where
  "width r = nat \<lfloor>rat_of_nat (cwidth (canvas r)) / scale r\<rfloor>"

definition height :: "Renderer \<Rightarrow> nat" where
  "height r = nat \<lfloor>rat_of_nat (cheight (canvas r)) / scale r\<rfloor>"

subsection \<open>The spread rule\<close>

text \<open>
  \<^verbatim>\<open>Math.max(this.#pixels[from] - decay, 0)\<close>: a read outside the buffer is
  \<^verbatim>\<open>undefined\<close>, the difference and the maximum are then \<^verbatim>\<open>NaN\<close>, and
  \<^verbatim>\<open>NaN\<close> is stored as 0.
\<close>

definition decayed :: "u8 option \<Rightarrow> int \<Rightarrow> u8" where
  "decayed src decay =
     (case src of None \<Rightarrow> 0 | Some v \<Rightarrow> to_uint8 (max (uint v - decay) 0))"

definition spread_to :: "Renderer \<Rightarrow> nat \<Rightarrow> rat \<Rightarrow> int" where
  "spread_to r from v = int from - int (width r) + (if v > 1 / 2 then 1 else - 1)"

definition spread :: "Renderer \<Rightarrow> nat \<Rightarrow> rng \<Rightarrow> Renderer \<times> rng" where
  "spread r from g =
     (if from < width r then (r, g)
      else
        (let (v1, g1) = Math_random g;
             decay = \<lfloor>fmul v1 3\<rfloor>;
             (v2, g2) = Math_random g1;
             to = spread_to r from v2
         in (r\<lparr>pixels := ta_set (pixels r) to (decayed (ta_get (pixels r) (int from)) decay)\<rparr>,
             g2)))"

lemma spread_canvas [simp]: "canvas (fst (spread r from g)) = canvas r"
  by (simp add: spread_def Math_random_def Let_def split: prod.splits)

lemma spread_scale [simp]: "scale (fst (spread r from g)) = scale r"
  by (simp add: spread_def Math_random_def Let_def split: prod.splits)

lemma spread_width [simp]: "width (fst (spread r from g)) = width r"
  by (simp add: width_def)

lemma spread_height [simp]: "height (fst (spread r from g)) = height r"
  by (simp add: height_def)

subsection \<open>update\<close>

function update_rows :: "Renderer \<Rightarrow> nat \<Rightarrow> nat \<Rightarrow> rng \<Rightarrow> Renderer \<times> rng" where
  "update_rows r x y g =
     (if y < height r
      then (case spread r (y * width r + x) g of (r', g') \<Rightarrow> update_rows r' x (Suc y) g')
      else (r, g))"
  by pat_completeness auto
termination
proof (relation "measure (\<lambda>(r, x, y, g). height r - y)")
  show "wf (measure (\<lambda>(r, x, y, g). height r - y))"
    by simp
next
  fix r :: Renderer and x y :: nat and g :: rng and r' g'
  assume "y < height r" and "(r', g') = spread r (y * width r + x) g"
  then have "height r' = height r"
    by (metis fst_conv spread_height)
  with \<open>y < height r\<close>
  show "((r', x, Suc y, g'), (r, x, y, g)) \<in> measure (\<lambda>(r, x, y, g). height r - y)"
    by simp
qed

declare update_rows.simps [simp del]

text \<open>The spread rule and its repetition by update change the heat buffer and nothing else.\<close>

lemma spread_frame: "fst (spread r from g) = r\<lparr>pixels := pixels (fst (spread r from g))\<rparr>"
  by (simp add: spread_def Math_random_def Let_def split: prod.splits)

lemma update_rows_frame:
  "fst (update_rows r x y g) = r\<lparr>pixels := pixels (fst (update_rows r x y g))\<rparr>"
proof (induction r x y g rule: update_rows.induct)
  case (1 r x y g)
  show ?case
  proof (cases "y < height r")
    case True
    obtain r' g' where s: "spread r (y * width r + x) g = (r', g')"
      by (cases "spread r (y * width r + x) g")
    have r': "r' = r\<lparr>pixels := pixels r'\<rparr>"
      using spread_frame [of r "y * width r + x" g] s by simp
    have "fst (update_rows r' x (Suc y) g') =
        r'\<lparr>pixels := pixels (fst (update_rows r' x (Suc y) g'))\<rparr>"
      using 1 [OF True s [symmetric]] .
    also have "\<dots> = r\<lparr>pixels := pixels (fst (update_rows r' x (Suc y) g'))\<rparr>"
      by (subst r') simp
    finally show ?thesis
      using True s by (simp add: update_rows.simps [of r])
  next
    case False
    then show ?thesis
      by (simp add: update_rows.simps [of r])
  qed
qed

lemma update_rows_canvas [simp]: "canvas (fst (update_rows r x y g)) = canvas r"
  by (subst update_rows_frame) simp

lemma update_rows_scale [simp]: "scale (fst (update_rows r x y g)) = scale r"
  by (subst update_rows_frame) simp

lemma update_rows_width [simp]: "width (fst (update_rows r x y g)) = width r"
  by (simp add: width_def)

lemma update_rows_height [simp]: "height (fst (update_rows r x y g)) = height r"
  by (simp add: height_def)

function update_cols :: "Renderer \<Rightarrow> nat \<Rightarrow> rng \<Rightarrow> Renderer \<times> rng" where
  "update_cols r x g =
     (if x < width r
      then (case update_rows r x 1 g of (r', g') \<Rightarrow> update_cols r' (Suc x) g')
      else (r, g))"
  by pat_completeness auto
termination
proof (relation "measure (\<lambda>(r, x, g). width r - x)")
  show "wf (measure (\<lambda>(r, x, g). width r - x))"
    by simp
next
  fix r :: Renderer and x :: nat and g :: rng and r' g'
  assume "x < width r" and "(r', g') = update_rows r x 1 g"
  then have "width r' = width r"
    by (metis fst_conv update_rows_width)
  with \<open>x < width r\<close>
  show "((r', Suc x, g'), (r, x, g)) \<in> measure (\<lambda>(r, x, g). width r - x)"
    by simp
qed

declare update_cols.simps [simp del]

definition update :: "Renderer \<Rightarrow> rng \<Rightarrow> Renderer \<times> rng" where
  "update r g = update_cols r 0 g"

subsection \<open>render\<close>

text \<open>
  \<^verbatim>\<open>this.#pallete[intensity]\<close> is \<^verbatim>\<open>undefined\<close> beyond the end of the
  palette, and destructuring \<^verbatim>\<open>undefined\<close> throws a \<^verbatim>\<open>TypeError\<close>.
\<close>

definition pallete_at :: "ColorPallete \<Rightarrow> nat \<Rightarrow> color option" where
  "pallete_at p i = (if i < length p then Some (p ! i) else None)"

text \<open>The body of the loop of \<^verbatim>\<open>render\<close>, for the cell \<open>i < length px\<close>.\<close>

definition render_cell :: "ColorPallete \<Rightarrow> u8 list \<Rightarrow> nat \<Rightarrow> u8 list \<Rightarrow> error + u8 list" where
  "render_cell pal px i d =
     (let intensity = px ! i in
      case pallete_at pal (unat intensity) of
        None \<Rightarrow> Inl TypeError
      | Some c \<Rightarrow>
          (let offset = int i * 4 in
           if intensity = 0 then Inr (ta_set d (offset + 3) (to_uint8_clamp 0))
           else
             Inr (ta_set (ta_set (ta_set (ta_set d
                    offset (to_uint8_clamp (red c)))
                    (offset + 1) (to_uint8_clamp (green c)))
                    (offset + 2) (to_uint8_clamp (blue c)))
                    (offset + 3) (to_uint8_clamp 255))))"

function render_loop :: "ColorPallete \<Rightarrow> u8 list \<Rightarrow> nat \<Rightarrow> u8 list \<Rightarrow> error + u8 list" where
  "render_loop pal px i d =
     (if i < length px
      then (case render_cell pal px i d of
              Inl e \<Rightarrow> Inl e
            | Inr d' \<Rightarrow> render_loop pal px (Suc i) d')
      else Inr d)"
  by pat_completeness auto
termination
  by (relation "measure (\<lambda>(pal, px, i, d). length px - i)") auto

declare render_loop.simps [simp del]

text \<open>
  A canvas bitmap of \<open>w\<close> by \<open>h\<close> pixels is transparent black when it is created and
  when its width or height is assigned. \<^verbatim>\<open>createImageData(w, h)\<close> throws an
  \<^verbatim>\<open>IndexSizeError\<close> when \<open>w\<close> or \<open>h\<close> is zero.
\<close>

definition blank :: "nat \<Rightarrow> nat \<Rightarrow> bitmap" where
  "blank w h = \<lparr>bwidth = w, bheight = h, data = replicate (w * h * 4) 0\<rparr>"

definition render :: "Renderer \<Rightarrow> Renderer result" where
  "render r =
     (let w = width r; h = height r;
          r1 = r\<lparr>offscreenCanvas := blank w h\<rparr>
      in if w = 0 \<or> h = 0 then Throw IndexSizeError r1
         else
           (case render_loop (pallete r) (pixels r) 0 (data (blank w h)) of
              Inl e \<Rightarrow> Throw e r1
            | Inr d \<Rightarrow>
                (let img = \<lparr>bwidth = w, bheight = h, data = d\<rparr>
                 in Return (r1\<lparr>offscreenCanvas := img,
                      shown := Some \<lparr>source = img, dx = 0,
                        dy = rat_of_nat (cheight (canvas r)) - rat_of_nat h * scale r,
                        dw = rat_of_nat (cwidth (canvas r)),
                        dh = rat_of_nat h * scale r\<rparr>\<rparr>))))"

subsection \<open>reset\<close>

function reset_row :: "Renderer \<Rightarrow> nat \<Rightarrow> Renderer" where
  "reset_row r x =
     (if x < width r
      then reset_row
             (r\<lparr>pixels := ta_set (pixels r) ((int (height r) - 1) * int (width r) + int x) 36\<rparr>)
             (Suc x)
      else r)"
  by pat_completeness auto
termination
  by (relation "measure (\<lambda>(r, x). width r - x)") (auto simp: width_def)

declare reset_row.simps [simp del]

definition reset :: "Renderer \<Rightarrow> Renderer result" where
  "reset r = render (reset_row (r\<lparr>pixels := replicate (width r * height r) 0\<rparr>) 0)"

subsection \<open>The palette setter and the constructor\<close>

definition set_pallete :: "Renderer \<Rightarrow> ColorPallete \<Rightarrow> Renderer result" where
  "set_pallete r upd =
     (if length upd \<noteq> 37 then Throw TypeError r else Return (r\<lparr>pallete := upd\<rparr>))"

text \<open>
  The constructor stores its options, creates the off-screen canvas (300 by 150, as every
  new canvas), allocates the buffer and calls \<^verbatim>\<open>reset\<close>.
\<close>

definition new_Renderer :: "HTMLCanvasElement \<Rightarrow> rat \<Rightarrow> ColorPallete \<Rightarrow> Renderer result" where
  "new_Renderer cv sc pal =
     (let r = \<lparr>scale = sc, pallete = pal, canvas = cv, offscreenCanvas = blank 300 150,
                shown = None, pixels = []\<rparr>
      in reset (r\<lparr>pixels := replicate (width r * height r) 0\<rparr>))"

section \<open>The controller\<close>

text \<open>
  The options bag of \<^verbatim>\<open>types.ts\<close>; a field that is absent is \<open>None\<close>.
\<close>

record BurnOptions =
  opt_scale :: "rat option"
  opt_interval :: "nat option"
  opt_height :: "nat option"
  opt_pallete :: "ColorPallete option"

text \<open>
  The variables that the closures of \<^verbatim>\<open>burn\<close> share: \<^verbatim>\<open>interval\<close>,
  \<^verbatim>\<open>pallete\<close>, \<^verbatim>\<open>id\<close> (\<open>None\<close> for \<^verbatim>\<open>null\<close>) and
  \<^verbatim>\<open>renderer\<close>; and the timers: the number of handles that \<^verbatim>\<open>setTimeout\<close> has
  issued, and the handles that are pending, each with its delay.
\<close>

record Controller =
  interval :: nat
  pallete_var :: ColorPallete
  id_var :: "nat option"
  renderer :: Renderer
  issued :: nat
  pending :: "(nat \<times> nat) list"

definition setTimeout :: "Controller \<Rightarrow> nat \<Rightarrow> nat \<times> Controller" where
  "setTimeout c delay =
     (let h = Suc (issued c) in (h, c\<lparr>issued := h, pending := (h, delay) # pending c\<rparr>))"

definition clearTimeout :: "Controller \<Rightarrow> nat \<Rightarrow> Controller" where
  "clearTimeout c h = c\<lparr>pending := filter (\<lambda>t. fst t \<noteq> h) (pending c)\<rparr>"

definition animate :: "Controller \<Rightarrow> rng \<Rightarrow> (Controller \<times> rng) result" where
  "animate c g =
     (case set_pallete (renderer c) (pallete_var c) of
        Throw e r \<Rightarrow> Throw e (c\<lparr>renderer := r\<rparr>, g)
      | Return r1 \<Rightarrow>
          (case update r1 g of (r2, g') \<Rightarrow>
             (case render r2 of
                Throw e r3 \<Rightarrow> Throw e (c\<lparr>renderer := r3\<rparr>, g')
              | Return r3 \<Rightarrow>
                  (case setTimeout (c\<lparr>renderer := r3\<rparr>) (interval c) of
                     (h, c') \<Rightarrow> Return (c'\<lparr>id_var := Some h\<rparr>, g')))))"

definition start :: "Controller \<Rightarrow> rng \<Rightarrow> (Controller \<times> rng) result" where
  "start c g = (if id_var c \<noteq> None then Return (c, g) else animate c g)"

definition stop :: "Controller \<Rightarrow> Controller" where
  "stop c =
     (case id_var c of
        None \<Rightarrow> c
      | Some h \<Rightarrow> (clearTimeout c h)\<lparr>id_var := None\<rparr>)"

definition controller_reset :: "Controller \<Rightarrow> Controller result" where
  "controller_reset c =
     (case reset (renderer c) of
        Throw e r \<Rightarrow> Throw e (c\<lparr>renderer := r\<rparr>)
      | Return r \<Rightarrow> Return (c\<lparr>renderer := r\<rparr>))"

definition get_pallete :: "Controller \<Rightarrow> ColorPallete" where
  "get_pallete c = pallete_var c"

definition controller_set_pallete :: "Controller \<Rightarrow> ColorPallete \<Rightarrow> Controller result" where
  "controller_set_pallete c upd = Return (c\<lparr>pallete_var := upd\<rparr>)"

definition set_interval :: "Controller \<Rightarrow> nat \<Rightarrow> Controller" where
  "set_interval c upd = c\<lparr>interval := upd\<rparr>"

text \<open>
  A pending timer that fires is no longer pending, and runs \<^verbatim>\<open>animate\<close>.
\<close>

definition fire :: "Controller \<Rightarrow> nat \<Rightarrow> rng \<Rightarrow> (Controller \<times> rng) result" where
  "fire c h g =
     (if h \<in> fst ` set (pending c) then animate (clearTimeout c h) g else Return (c, g))"

text \<open>
  \<^verbatim>\<open>burn(canvas, options)\<close>: the defaults, the renderer, the controller in its first
  state, \<^verbatim>\<open>controller.start()\<close>. An exception leaves the caller without a controller.
\<close>

definition burn :: "HTMLCanvasElement \<Rightarrow> BurnOptions \<Rightarrow> rng \<Rightarrow> error + Controller \<times> rng" where
  "burn cv options g =
     (let scale0 = (case opt_scale options of None \<Rightarrow> 7 / 2 | Some s \<Rightarrow> s);
          interval0 = (case opt_interval options of None \<Rightarrow> 30 | Some i \<Rightarrow> i);
          pallete0 = (case opt_pallete options of None \<Rightarrow> DEFAULT_PALLETE | Some p \<Rightarrow> p)
      in case new_Renderer cv scale0 pallete0 of
           Throw e r \<Rightarrow> Inl e
         | Return r \<Rightarrow>
             (case start \<lparr>interval = interval0, pallete_var = pallete0, id_var = None,
                          renderer = r, issued = 0, pending = []\<rparr> g of
                Throw e s \<Rightarrow> Inl e
              | Return s \<Rightarrow> Inr s))"

section \<open>The bytes of the image, cell by cell\<close>

text \<open>
  The byte at index \<open>k\<close> of the image data after the loop of \<^verbatim>\<open>render\<close> has handled
  the cell \<open>k div 4\<close>, given the image data \<open>d\<close> before.
\<close>

definition pixel_byte :: "ColorPallete \<Rightarrow> u8 list \<Rightarrow> u8 list \<Rightarrow> nat \<Rightarrow> u8" where
  "pixel_byte pal px d k =
     (let v = px ! (k div 4); c = pal ! unat v in
      if v = 0 then (if k mod 4 = 3 then 0 else d ! k)
      else if k mod 4 = 0 then to_uint8_clamp (red c)
      else if k mod 4 = 1 then to_uint8_clamp (green c)
      else if k mod 4 = 2 then to_uint8_clamp (blue c)
      else 255)"

section \<open>The traversal of update, as a list of sources\<close>

text \<open>
  The spread rule applied to a list of source indices in turn, each on the buffer that the
  one before left; and the sources that \<^verbatim>\<open>update\<close> visits: column by column, and
  in each column the rows \<open>1\<close> to \<open>height - 1\<close>.
\<close>

fun spread_all :: "Renderer \<Rightarrow> nat list \<Rightarrow> rng \<Rightarrow> Renderer \<times> rng" where
  "spread_all r [] g = (r, g)"
| "spread_all r (from # fs) g = (case spread r from g of (r', g') \<Rightarrow> spread_all r' fs g')"

definition column_sources :: "nat \<Rightarrow> nat \<Rightarrow> nat \<Rightarrow> nat list" where
  "column_sources w h x = map (\<lambda>y. y * w + x) [1..<h]"

definition sources :: "nat \<Rightarrow> nat \<Rightarrow> nat list" where
  "sources w h = concat (map (column_sources w h) [0..<w])"

text \<open>The sources that come before the last one, the cell in the bottom right corner.\<close>

definition earlier_sources :: "nat \<Rightarrow> nat \<Rightarrow> nat list" where
  "earlier_sources w h =
     concat (map (column_sources w h) [0..<w - 1]) @ map (\<lambda>y. y * w + (w - 1)) [1..<h - 1]"

section \<open>The states that reset and update lead to\<close>

inductive reachable :: "Renderer \<Rightarrow> bool" where
  after_reset: "0 < scale r \<Longrightarrow> reachable (state_of (reset r))"
| after_update: "reachable r \<Longrightarrow> valid_rng g \<Longrightarrow> reachable (fst (update r g))"

section \<open>Example states\<close>

text \<open>
  A canvas of 4 by 4 pixels, and the renderer on it at scale 1 with the default palette,
  its grid as \<^verbatim>\<open>reset\<close> leaves it. An options bag that asks for scale 1 and for a
  height of 2, and the controller that \<^verbatim>\<open>burn\<close> returns for this canvas and these
  options when every draw is 3/4.
\<close>

definition example_canvas :: HTMLCanvasElement where
  "example_canvas = \<lparr>cwidth = 4, cheight = 4\<rparr>"

definition example_renderer :: Renderer where
  "example_renderer =
     \<lparr>scale = 1, pallete = DEFAULT_PALLETE, canvas = \<lparr>cwidth = 4, cheight = 4\<rparr>,
      offscreenCanvas = blank 4 4, shown = None,
      pixels = [0, 0, 0, 0, 0, 0, 0, 0, 0, 0, 0, 0, 36, 36, 36, 36]\<rparr>"

definition example_options :: BurnOptions where
  "example_options =
     \<lparr>opt_scale = Some 1, opt_interval = None, opt_height = Some 2, opt_pallete = None\<rparr>"

definition example_controller :: Controller where
  "example_controller =
     \<lparr>interval = 30, pallete_var = DEFAULT_PALLETE, id_var = Some 1,
      renderer =
        state_of (render (fst (update (state_of (reset example_renderer)) (\<lambda>n. 3 / 4)))),
      issued = 1, pending = [(1, 30)]\<rparr>"

text \<open>
  A renderer whose grid has no column: a canvas 2 pixels wide at the default scale 3.5.
\<close>

definition empty_renderer :: Renderer where
  "empty_renderer =
     \<lparr>scale = 7 / 2, pallete = DEFAULT_PALLETE, canvas = \<lparr>cwidth = 2, cheight = 9\<rparr>,
      offscreenCanvas = blank 0 2, shown = None, pixels = []\<rparr>"

lemma example_renderer_dims:
  "width example_renderer = 4" "height example_renderer = 4"
  "length (pixels example_renderer) = 16"
  by (simp_all add: width_def height_def example_renderer_def)

lemma sources_4_4: "sources 4 4 = [4, 8, 12, 5, 9, 13, 6, 10, 14, 7, 11, 15]"
  by code_simp

section \<open>What render and reset do to the heat buffer\<close>

lemma render_pixels [simp]: "pixels (state_of (render r)) = pixels r"
  by (simp add: render_def Let_def split: sum.splits)

lemma render_canvas [simp]: "canvas (state_of (render r)) = canvas r"
  by (simp add: render_def Let_def split: sum.splits)

lemma render_scale [simp]: "scale (state_of (render r)) = scale r"
  by (simp add: render_def Let_def split: sum.splits)

lemma ta_set_length [simp]: "length (ta_set a i v) = length a"
  by (simp add: ta_set_def)

lemma ta_set_nth:
  "j < length a \<Longrightarrow> ta_set a i v ! j = (if i = int j then v else a ! j)"
  by (auto simp: ta_set_def)

lemma reset_row_frame: "reset_row r x = r\<lparr>pixels := pixels (reset_row r x)\<rparr>"
proof (induction r x rule: reset_row.induct)
  case (1 r x)
  show ?case
  proof (cases "x < width r")
    case True
    let ?r1 = "r\<lparr>pixels := ta_set (pixels r) ((int (height r) - 1) * int (width r) + int x) 36\<rparr>"
    have "reset_row ?r1 (Suc x) = ?r1\<lparr>pixels := pixels (reset_row ?r1 (Suc x))\<rparr>"
      using 1 [OF True] .
    then show ?thesis
      using True by (simp add: reset_row.simps [of r])
  next
    case False
    then show ?thesis by (simp add: reset_row.simps [of r])
  qed
qed

lemma reset_row_length [simp]: "length (pixels (reset_row r x)) = length (pixels r)"
proof (induction r x rule: reset_row.induct)
  case (1 r x)
  show ?case
  proof (cases "x < width r")
    case True
    with 1 [OF True] show ?thesis
      by (simp add: reset_row.simps [of r])
  next
    case False
    then show ?thesis by (simp add: reset_row.simps [of r])
  qed
qed

lemma reset_row_nth:
  "i < length (pixels r) \<Longrightarrow>
   pixels (reset_row r x) ! i =
     (if (int (height r) - 1) * int (width r) + int x \<le> int i \<and>
         int i < (int (height r) - 1) * int (width r) + int (width r)
      then 36 else pixels r ! i)"
proof (induction r x rule: reset_row.induct)
  case (1 r x)
  show ?case
  proof (cases "x < width r")
    case True
    let ?k = "(int (height r) - 1) * int (width r) + int x"
    let ?r1 = "r\<lparr>pixels := ta_set (pixels r) ?k 36\<rparr>"
    have wh: "width ?r1 = width r" "height ?r1 = height r"
      by (simp_all add: width_def height_def)
    have "pixels (reset_row ?r1 (Suc x)) ! i =
      (if (int (height r) - 1) * int (width r) + int (Suc x) \<le> int i \<and>
         int i < (int (height r) - 1) * int (width r) + int (width r)
       then 36 else pixels ?r1 ! i)"
      using 1(1) [OF True] 1(2) by (simp add: wh)
    moreover have "pixels ?r1 ! i = (if ?k = int i then 36 else pixels r ! i)"
      using 1(2) by (simp add: ta_set_nth)
    ultimately show ?thesis
      using True by (auto simp: reset_row.simps [of r])
  next
    case False
    then show ?thesis by (auto simp: reset_row.simps [of r])
  qed
qed

lemma cell_in_bottom_row:
  fixes x y w h :: nat
  assumes "x < w" "y < h"
  shows "((int h - 1) * int w \<le> int (y * w + x)) = (y = h - 1)"
proof
  assume le: "(int h - 1) * int w \<le> int (y * w + x)"
  show "y = h - 1"
  proof (rule ccontr)
    assume "y \<noteq> h - 1"
    with assms have "Suc y \<le> h - 1" by simp
    then have "Suc y * w \<le> (h - 1) * w"
      by (rule mult_le_mono1)
    moreover have "y * w + x < Suc y * w"
      using assms by simp
    ultimately have "y * w + x < (h - 1) * w" by simp
    then have "int (y * w + x) < int ((h - 1) * w)"
      by (simp only: of_nat_less_iff)
    also have "int ((h - 1) * w) = (int h - 1) * int w"
    proof -
      have "1 \<le> h" using assms by simp
      then have "int (h - 1) = int h - 1" by (simp add: of_nat_diff)
      then show ?thesis by simp
    qed
    finally show False using le by simp
  qed
next
  assume "y = h - 1"
  then have "int y = int h - 1" using assms by (simp add: of_nat_diff)
  then show "(int h - 1) * int w \<le> int (y * w + x)" by simp
qed

lemma cell_index_less:
  fixes x y w h :: nat
  assumes "x < w" "y < h"
  shows "y * w + x < w * h"
proof -
  have "y * w + x < Suc y * w" using assms by simp
  also have "Suc y * w \<le> h * w" using assms by (intro mult_le_mono1) simp
  finally show ?thesis by (simp add: mult.commute)
qed

section \<open>update is the spread rule over the sources in column-major order\<close>

lemma spread_all_frame:
  "fst (spread_all r fs g) = r\<lparr>pixels := pixels (fst (spread_all r fs g))\<rparr>"
proof (induction fs arbitrary: r g)
  case Nil
  show ?case by simp
next
  case (Cons f fs)
  obtain r' g' where s: "spread r f g = (r', g')"
    by (cases "spread r f g")
  have r': "r' = r\<lparr>pixels := pixels r'\<rparr>"
    using spread_frame [of r f g] s by simp
  have "fst (spread_all r' fs g') = r'\<lparr>pixels := pixels (fst (spread_all r' fs g'))\<rparr>"
    by (rule Cons.IH)
  also have "\<dots> = r\<lparr>pixels := pixels (fst (spread_all r' fs g'))\<rparr>"
    by (subst r') simp
  finally show ?case
    using s by simp
qed

lemma spread_all_width [simp]: "width (fst (spread_all r fs g)) = width r"
  by (subst spread_all_frame) (simp add: width_def)

lemma spread_all_height [simp]: "height (fst (spread_all r fs g)) = height r"
  by (subst spread_all_frame) (simp add: height_def)

lemma spread_all_append:
  "spread_all r (fs @ fs') g = (case spread_all r fs g of (r', g') \<Rightarrow> spread_all r' fs' g')"
  by (induction fs arbitrary: r g) (auto split: prod.splits)

lemma update_rows_spread_all:
  "update_rows r x y g = spread_all r (map (\<lambda>y. y * width r + x) [y..<height r]) g"
proof (induction r x y g rule: update_rows.induct)
  case (1 r x y g)
  show ?case
  proof (cases "y < height r")
    case True
    obtain r' g' where s: "spread r (y * width r + x) g = (r', g')"
      by (cases "spread r (y * width r + x) g")
    have wh: "width r' = width r" "height r' = height r"
      using spread_width [of r "y * width r + x" g] spread_height [of r "y * width r + x" g] s
      by simp_all
    have "update_rows r x y g = update_rows r' x (Suc y) g'"
      using True s by (simp add: update_rows.simps [of r])
    also have "\<dots> = spread_all r' (map (\<lambda>y. y * width r + x) [Suc y..<height r]) g'"
      using 1 [OF True s [symmetric]] by (simp add: wh)
    also have "\<dots> = spread_all r (map (\<lambda>y. y * width r + x) [y..<height r]) g"
      using True s by (simp add: upt_conv_Cons)
    finally show ?thesis .
  next
    case False
    then show ?thesis
      by (simp add: update_rows.simps [of r])
  qed
qed

lemma update_cols_spread_all:
  "update_cols r x g =
     spread_all r (concat (map (column_sources (width r) (height r)) [x..<width r])) g"
proof (induction r x g rule: update_cols.induct)
  case (1 r x g)
  show ?case
  proof (cases "x < width r")
    case True
    obtain r' g' where s: "update_rows r x 1 g = (r', g')"
      by (cases "update_rows r x 1 g")
    have wh: "width r' = width r" "height r' = height r"
      using s by (metis fst_conv update_rows_width, metis fst_conv update_rows_height)
    have col: "spread_all r (column_sources (width r) (height r) x) g = (r', g')"
      using s by (simp add: update_rows_spread_all column_sources_def)
    have "update_cols r x g = update_cols r' (Suc x) g'"
      using True s by (simp add: update_cols.simps [of r])
    also have "\<dots> =
        spread_all r' (concat (map (column_sources (width r) (height r)) [Suc x..<width r])) g'"
      using 1 [OF True s [symmetric]] by (simp add: wh)
    also have "\<dots> =
        spread_all r (concat (map (column_sources (width r) (height r)) [x..<width r])) g"
      using True col by (simp add: upt_conv_Cons spread_all_append)
    finally show ?thesis .
  next
    case False
    then show ?thesis
      by (simp add: update_cols.simps [of r])
  qed
qed

lemma update_spread_all: "update r g = spread_all r (sources (width r) (height r)) g"
  by (simp add: update_def update_cols_spread_all sources_def)

lemma source_bounds:
  assumes "from \<in> set (sources w h)"
  shows "w \<le> from \<and> from < w * h"
proof -
  from assms obtain x y where x: "x < w" and y: "1 \<le> y" "y < h" and f: "from = y * w + x"
    by (auto simp: sources_def column_sources_def)
  have "1 * w \<le> y * w" using y(1) by (rule mult_le_mono1)
  then have "w \<le> from" unfolding f by linarith
  moreover have "from < w * h" unfolding f using x y(2) by (rule cell_index_less)
  ultimately show ?thesis ..
qed

section \<open>What one application of the spread rule does\<close>

lemma valid_rng_shift: "valid_rng g \<Longrightarrow> valid_rng (\<lambda>n. g (n + k))"
  by (simp add: valid_rng_def)

lemma round_half_even_bounds:
  "\<lfloor>y\<rfloor> \<le> round_half_even y" "round_half_even y \<le> \<lfloor>y\<rfloor> + 1"
  by (simp_all add: round_half_even_def Let_def)

lemma round_half_even_of_int [simp]: "round_half_even (of_int n) = n"
  by (simp add: round_half_even_def)

lemma round_half_even_ge:
  assumes "of_int n \<le> y"
  shows "n \<le> round_half_even y"
proof -
  have "n \<le> \<lfloor>y\<rfloor>" using assms by (simp add: le_floor_iff)
  then show ?thesis using round_half_even_bounds(1) [of y] by linarith
qed

lemma round_half_even_le:
  assumes "y \<le> of_int n"
  shows "round_half_even y \<le> n"
proof (cases "y = of_int n")
  case True
  then show ?thesis by simp
next
  case False
  then have "y < of_int n" using assms by simp
  then have "\<lfloor>y\<rfloor> < n" by (simp add: floor_less_iff)
  then show ?thesis using round_half_even_bounds(2) [of y] by linarith
qed

lemma round_half_even_below:
  assumes "y \<le> of_int n - 3 / 4"
  shows "round_half_even y \<le> n - 1"
proof (cases "\<lfloor>y\<rfloor> = n - 1")
  case True
  then have "y - of_int \<lfloor>y\<rfloor> \<le> 1 / 4"
    using assms by simp
  then have "round_half_even y = \<lfloor>y\<rfloor>"
    by (simp add: round_half_even_def Let_def)
  then show ?thesis using True by simp
next
  case False
  have "y < of_int n" using assms by linarith
  then have "\<lfloor>y\<rfloor> < n" by (simp add: floor_less_iff)
  with False have "\<lfloor>y\<rfloor> \<le> n - 2" by linarith
  then show ?thesis using round_half_even_bounds(2) [of y] by linarith
qed

lemma ulp_power: "\<exists>n. ulp x = 1 / 2 ^ n"
proof -
  consider "2 \<le> x" | "1 \<le> x" "\<not> 2 \<le> x" | "\<not> 1 \<le> x" "\<not> 2 \<le> x"
    by argo
  then show ?thesis
  proof cases
    case 1
    then have "ulp x = 1 / 2 ^ 51" by (simp only: ulp_def if_True)
    then show ?thesis by (rule exI)
  next
    case 2
    then have "ulp x = 1 / 2 ^ 52" by (simp only: ulp_def if_True if_False)
    then show ?thesis by (rule exI)
  next
    case 3
    then have "ulp x = 1 / 2 ^ (binade 1 x + 52)" by (simp only: ulp_def if_False)
    then show ?thesis by (rule exI)
  qed
qed

lemma to_double_ge:
  assumes "of_int n \<le> x"
  shows "of_int n \<le> to_double x"
proof -
  obtain m where u: "ulp x = 1 / 2 ^ m" using ulp_power by blast
  have "of_int (n * 2 ^ m) \<le> x / ulp x"
    using assms by (simp add: u)
  then have "n * 2 ^ m \<le> round_half_even (x / ulp x)"
    by (rule round_half_even_ge)
  then have "(of_int (n * 2 ^ m) :: rat) \<le> of_int (round_half_even (x / ulp x))"
    by (simp only: of_int_le_iff)
  then show ?thesis
    by (simp add: to_double_def u field_simps)
qed

lemma to_double_le:
  assumes "x \<le> of_int n"
  shows "to_double x \<le> of_int n"
proof -
  obtain m where u: "ulp x = 1 / 2 ^ m" using ulp_power by blast
  have "x / ulp x \<le> of_int (n * 2 ^ m)"
    using assms by (simp add: u)
  then have "round_half_even (x / ulp x) \<le> n * 2 ^ m"
    by (rule round_half_even_le)
  then have "(of_int (round_half_even (x / ulp x)) :: rat) \<le> of_int (n * 2 ^ m)"
    by (simp only: of_int_le_iff)
  then show ?thesis
    by (simp add: to_double_def u field_simps)
qed

lemma floor_fmul3_nonneg:
  assumes "0 \<le> v"
  shows "0 \<le> \<lfloor>fmul v 3\<rfloor>"
proof -
  have "of_int 0 \<le> v * 3" using assms by simp
  then have "of_int 0 \<le> to_double (v * 3)" by (rule to_double_ge)
  then show ?thesis by (simp add: fmul_def)
qed

lemma floor_fmul3_pos:
  assumes "1 / 3 \<le> v"
  shows "1 \<le> \<lfloor>fmul v 3\<rfloor>"
proof -
  have "of_int 1 \<le> v * 3" using assms by simp
  then have "of_int 1 \<le> to_double (v * 3)" by (rule to_double_ge)
  then show ?thesis by (simp add: fmul_def le_floor_iff)
qed

lemma floor_fmul3_le:
  assumes "v \<le> 1 - 1 / 2 ^ 53"
  shows "\<lfloor>fmul v 3\<rfloor> \<le> 2"
proof (cases "2 \<le> v * 3")
  case False
  then have "v * 3 \<le> of_int 2" by simp
  then have "to_double (v * 3) \<le> of_int 2" by (rule to_double_le)
  then have "\<lfloor>to_double (v * 3)\<rfloor> \<le> 2" by (simp add: floor_le_iff)
  then show ?thesis by (simp add: fmul_def)
next
  case True
  then have u: "ulp (v * 3) = 1 / 2 ^ 51" by (simp add: ulp_def)
  have "v * 3 * 2 ^ 51 \<le> of_int (3 * 2 ^ 51) - 3 / 4"
    using assms by simp
  then have "round_half_even (v * 3 / ulp (v * 3)) \<le> 3 * 2 ^ 51 - 1"
    unfolding u using round_half_even_below [of "v * 3 * 2 ^ 51" "3 * 2 ^ 51"] by simp
  then have "(of_int (round_half_even (v * 3 / ulp (v * 3))) :: rat) \<le> of_int (3 * 2 ^ 51 - 1)"
    by (simp only: of_int_le_iff)
  then have "to_double (v * 3) \<le> (3 * 2 ^ 51 - 1) / 2 ^ 51"
    by (simp add: to_double_def u field_simps)
  also have "\<dots> < 3" by simp
  finally have "\<lfloor>to_double (v * 3)\<rfloor> < 3" by (simp add: floor_less_iff)
  then show ?thesis by (simp add: fmul_def)
qed

lemma fmul_examples:
  "\<lfloor>fmul (1 / 4) 3\<rfloor> = 0" "\<lfloor>fmul (1 / 2) 3\<rfloor> = 1" "\<lfloor>fmul (3 / 4) 3\<rfloor> = 2"
  "\<lfloor>fmul (6004799503160661 / 2 ^ 54) 3\<rfloor> = 1"
  "\<lfloor>fmul (6004799503160661 / 2 ^ 53) 3\<rfloor> = 2"
  by code_simp+

lemma ulp_half:
  assumes "1 / 2 \<le> x" and "x < 1"
  shows "ulp x = 1 / 2 ^ 53"
proof -
  have "binade 1 x = 1"
    by (subst binade.simps) (use assms(1) in simp)
  then show ?thesis
    using assms(2) by (simp add: ulp_def)
qed

lemma ulp_one: "1 \<le> x \<Longrightarrow> x < 2 \<Longrightarrow> ulp x = 1 / 2 ^ 52"
  by (simp add: ulp_def)

lemma ulp_two: "2 \<le> x \<Longrightarrow> ulp x = 1 / 2 ^ 51"
  by (simp add: ulp_def)

lemma ulp_small:
  assumes "x < 1"
  shows "\<exists>m. ulp x = 1 / 2 ^ Suc m"
proof -
  have "ulp x = 1 / 2 ^ Suc (binade 1 x + 51)"
    using assms by (simp add: ulp_def)
  then show ?thesis by (rule exI)
qed

lemma to_double_le_half:
  assumes "x \<le> 1 / 2"
  shows "to_double x \<le> 1 / 2"
proof -
  obtain m where u: "ulp x = 1 / 2 ^ Suc m"
    using ulp_small [of x] assms by auto
  have "x / ulp x \<le> of_int (2 ^ m)"
    using assms by (simp add: u)
  then have "round_half_even (x / ulp x) \<le> 2 ^ m"
    by (rule round_half_even_le)
  then have "(of_int (round_half_even (x / ulp x)) :: rat) \<le> of_int (2 ^ m)"
    by (simp only: of_int_le_iff)
  then show ?thesis
    by (simp add: to_double_def u field_simps)
qed

lemma round_half_even_lt:
  assumes "y < of_int n - 1 / 2"
  shows "round_half_even y \<le> n - 1"
proof (cases "\<lfloor>y\<rfloor> = n - 1")
  case True
  then have "y - of_int \<lfloor>y\<rfloor> < 1 / 2"
    using assms by simp
  then have "round_half_even y = \<lfloor>y\<rfloor>"
    by (simp add: round_half_even_def Let_def)
  then show ?thesis using True by simp
next
  case False
  have "y < of_int n" using assms by linarith
  then have "\<lfloor>y\<rfloor> < n" by (simp add: floor_less_iff)
  with False have "\<lfloor>y\<rfloor> \<le> n - 2" by linarith
  then show ?thesis using round_half_even_bounds(2) [of y] by linarith
qed

lemma round_half_even_tie:
  assumes "of_int n - 1 / 2 \<le> y" and "even n"
  shows "n \<le> round_half_even y"
proof (cases "of_int n \<le> y")
  case True
  then show ?thesis by (rule round_half_even_ge)
next
  case False
  have "of_int (n - 1) \<le> y" using assms(1) by simp
  then have "n - 1 \<le> \<lfloor>y\<rfloor>" by (simp add: le_floor_iff)
  moreover have "\<lfloor>y\<rfloor> < n" using False by (simp add: floor_less_iff)
  ultimately have f: "\<lfloor>y\<rfloor> = n - 1" by linarith
  then have "odd \<lfloor>y\<rfloor>" using assms(2) by simp
  moreover have "1 / 2 \<le> y - of_int \<lfloor>y\<rfloor>" using assms(1) f by simp
  ultimately have "round_half_even y = \<lfloor>y\<rfloor> + 1"
    by (auto simp: round_half_even_def Let_def)
  then show ?thesis using f by simp
qed

lemma to_double_scaled:
  assumes "ulp x = 1 / 2 ^ m"
  shows "to_double x = of_int (round_half_even (x * 2 ^ m)) / 2 ^ m"
  by (simp add: to_double_def assms)

text \<open>The double product with 3 reaches 1 from \<open>1 - 2^-54\<close> on, and 2 from \<open>2 - 2^-53\<close> on.\<close>

lemma to_double_below_1:
  assumes "x < 1 - 1 / 2 ^ 54"
  shows "to_double x < 1"
proof (cases "x \<le> 1 / 2")
  case True
  then have "to_double x \<le> 1 / 2" by (rule to_double_le_half)
  then show ?thesis by simp
next
  case False
  then have u: "ulp x = 1 / 2 ^ 53" using assms by (intro ulp_half) simp_all
  have "x * 2 ^ 53 < of_int (2 ^ 53) - 1 / 2"
    using assms by simp
  then have "round_half_even (x * 2 ^ 53) \<le> 2 ^ 53 - 1"
    by (rule round_half_even_lt)
  then have "(of_int (round_half_even (x * 2 ^ 53)) :: rat) \<le> of_int (2 ^ 53 - 1)"
    by (simp only: of_int_le_iff)
  then show ?thesis
    by (simp add: to_double_scaled [OF u] field_simps)
qed

lemma to_double_reaches_1:
  assumes "1 - 1 / 2 ^ 54 \<le> x"
  shows "1 \<le> to_double x"
proof (cases "1 \<le> x")
  case True
  then have "of_int 1 \<le> to_double x" by (intro to_double_ge) simp
  then show ?thesis by simp
next
  case False
  then have u: "ulp x = 1 / 2 ^ 53" using assms by (intro ulp_half) simp_all
  have "of_int (2 ^ 53) - 1 / 2 \<le> x * 2 ^ 53"
    using assms by simp
  then have "2 ^ 53 \<le> round_half_even (x * 2 ^ 53)"
    by (rule round_half_even_tie) simp
  then have "(of_int (2 ^ 53) :: rat) \<le> of_int (round_half_even (x * 2 ^ 53))"
    by (simp only: of_int_le_iff)
  then show ?thesis
    by (simp add: to_double_scaled [OF u] field_simps)
qed

lemma to_double_below_2:
  assumes "x < 2 - 1 / 2 ^ 53"
  shows "to_double x < 2"
proof (cases "x \<le> 1")
  case True
  then have "x \<le> of_int 1" by simp
  then have "to_double x \<le> of_int 1" by (rule to_double_le)
  then show ?thesis by simp
next
  case False
  then have u: "ulp x = 1 / 2 ^ 52" using assms by (intro ulp_one) simp_all
  have "x * 2 ^ 52 < of_int (2 ^ 53) - 1 / 2"
    using assms by simp
  then have "round_half_even (x * 2 ^ 52) \<le> 2 ^ 53 - 1"
    by (rule round_half_even_lt)
  then have "(of_int (round_half_even (x * 2 ^ 52)) :: rat) \<le> of_int (2 ^ 53 - 1)"
    by (simp only: of_int_le_iff)
  then show ?thesis
    by (simp add: to_double_scaled [OF u] field_simps)
qed

lemma to_double_reaches_2:
  assumes "2 - 1 / 2 ^ 53 \<le> x"
  shows "2 \<le> to_double x"
proof (cases "2 \<le> x")
  case True
  then have "of_int 2 \<le> to_double x" by (intro to_double_ge) simp
  then show ?thesis by simp
next
  case False
  then have u: "ulp x = 1 / 2 ^ 52" using assms by (intro ulp_one) simp_all
  have "of_int (2 ^ 53) - 1 / 2 \<le> x * 2 ^ 52"
    using assms by simp
  then have "2 ^ 53 \<le> round_half_even (x * 2 ^ 52)"
    by (rule round_half_even_tie) simp
  then have "(of_int (2 ^ 53) :: rat) \<le> of_int (round_half_even (x * 2 ^ 52))"
    by (simp only: of_int_le_iff)
  then show ?thesis
    by (simp add: to_double_scaled [OF u] field_simps)
qed

lemma floor_fmul3_eq:
  assumes "0 \<le> v" and "v \<le> 1 - 1 / 2 ^ 53"
  shows "\<lfloor>fmul v 3\<rfloor> =
    (if v * 3 < 1 - 1 / 2 ^ 54 then 0 else if v * 3 < 2 - 1 / 2 ^ 53 then 1 else 2)"
proof -
  consider (a) "v * 3 < 1 - 1 / 2 ^ 54"
    | (b) "1 - 1 / 2 ^ 54 \<le> v * 3" "v * 3 < 2 - 1 / 2 ^ 53"
    | (c) "2 - 1 / 2 ^ 53 \<le> v * 3"
    by linarith
  then show ?thesis
  proof cases
    case a
    then have "to_double (v * 3) < 1" by (rule to_double_below_1)
    moreover have "0 \<le> \<lfloor>fmul v 3\<rfloor>" using assms(1) by (rule floor_fmul3_nonneg)
    ultimately have "\<lfloor>fmul v 3\<rfloor> = 0"
      by (simp add: fmul_def floor_eq_iff)
    then show ?thesis using a by simp
  next
    case b
    have "1 \<le> to_double (v * 3)" using b(1) by (rule to_double_reaches_1)
    moreover have "to_double (v * 3) < 2" using b(2) by (rule to_double_below_2)
    ultimately have "\<lfloor>fmul v 3\<rfloor> = 1"
      by (simp add: fmul_def floor_eq_iff)
    then show ?thesis using b by simp
  next
    case c
    have "2 \<le> to_double (v * 3)" using c by (rule to_double_reaches_2)
    then have "2 \<le> \<lfloor>fmul v 3\<rfloor>" by (simp add: fmul_def le_floor_iff)
    moreover have "\<lfloor>fmul v 3\<rfloor> \<le> 2" using assms(2) by (rule floor_fmul3_le)
    ultimately have "\<lfloor>fmul v 3\<rfloor> = 2" by linarith
    moreover have "\<not> v * 3 < 1 - 1 / 2 ^ 54" using c by simp
    ultimately show ?thesis using c by simp
  qed
qed

lemma double_below_1:
  assumes "is_double v" and "v < 1"
  shows "v \<le> 1 - 1 / 2 ^ 53"
proof (cases "v < 1 / 2")
  case True
  then show ?thesis by simp
next
  case False
  then have u: "ulp v = 1 / 2 ^ 53" using assms(2) by (intro ulp_half) simp_all
  have eq: "v = of_int (round_half_even (v * 2 ^ 53)) / 2 ^ 53"
    using assms(1) by (simp add: is_double_def to_double_scaled [OF u])
  let ?n = "round_half_even (v * 2 ^ 53)"
  have "of_int ?n / 2 ^ 53 < (1 :: rat)"
    using assms(2) eq by simp
  then have "(of_int ?n :: rat) < of_int (2 ^ 53)"
    by (simp add: field_simps)
  then have "?n < 2 ^ 53"
    by (simp only: of_int_less_iff)
  then have "?n \<le> 2 ^ 53 - 1" by simp
  then have "(of_int ?n :: rat) \<le> of_int (2 ^ 53 - 1)"
    by (simp only: of_int_le_iff)
  then have "of_int ?n / 2 ^ 53 \<le> (1 :: rat) - 1 / 2 ^ 53"
    by (simp add: field_simps)
  then show ?thesis using eq by simp
qed

lemma is_double_examples: "is_double (1 / 4)" "is_double (1 / 2)" "is_double (3 / 4)"
  "is_double (6004799503160661 / 2 ^ 53)"
  unfolding is_double_def by code_simp+

lemma double_rng_valid: "double_rng g \<Longrightarrow> valid_rng g"
  by (simp add: double_rng_def valid_rng_def)

lemma double_rng_bounds:
  assumes "double_rng g"
  shows "0 \<le> g n" "g n \<le> 1 - 1 / 2 ^ 53"
proof -
  have d: "is_double (g n)" "0 \<le> g n" "g n < 1"
    using assms by (simp_all add: double_rng_def)
  show "0 \<le> g n" by (rule d(2))
  show "g n \<le> 1 - 1 / 2 ^ 53" using d(1,3) by (rule double_below_1)
qed

lemma double_rng_const: "is_double v \<Longrightarrow> 0 \<le> v \<Longrightarrow> v < 1 \<Longrightarrow> double_rng (\<lambda>n. v)"
  by (simp add: double_rng_def)

lemma double_rng_three_quarters: "double_rng (\<lambda>n. 3 / 4)"
  by (rule double_rng_const) (simp_all add: is_double_examples)

lemma floor_fmul3_range:
  assumes "0 \<le> v" "v \<le> 1 - 1 / 2 ^ 53"
  shows "\<lfloor>fmul v 3\<rfloor> \<in> {0, 1, 2}"
proof -
  have "0 \<le> \<lfloor>fmul v 3\<rfloor>"
    using assms(1) by (rule floor_fmul3_nonneg)
  moreover have "\<lfloor>fmul v 3\<rfloor> \<le> 2"
    using assms(2) by (rule floor_fmul3_le)
  ultimately have "\<lfloor>fmul v 3\<rfloor> = 0 \<or> \<lfloor>fmul v 3\<rfloor> = 1 \<or> \<lfloor>fmul v 3\<rfloor> = 2"
    by linarith
  then show ?thesis by blast
qed

lemma spread_eq:
  assumes "width r \<le> from"
  shows "spread r from g =
    (r\<lparr>pixels := ta_set (pixels r) (spread_to r from (g 1))
                    (decayed (ta_get (pixels r) (int from)) \<lfloor>fmul (g 0) 3\<rfloor>)\<rparr>,
     \<lambda>n. g (n + 2))"
  using assms by (simp add: spread_def Math_random_def)

lemma spread_noop: "from < width r \<Longrightarrow> spread r from g = (r, g)"
  by (simp add: spread_def)

lemma uint_to_uint8:
  assumes "0 \<le> m" "m < 256"
  shows "uint (to_uint8 m) = m"
  using assms by (simp add: to_uint8_def uint_word_of_int take_bit_eq_mod)

lemma uint_u8_less: "uint (v :: u8) < 256"
  using uint_bounded [of v] by simp

lemma uint_decayed:
  assumes "0 \<le> d"
  shows "uint (decayed (Some v) d) = max (uint v - d) 0"
proof -
  have "max (uint v - d) 0 \<le> uint v"
    using assms by simp
  then have "max (uint v - d) 0 < 256"
    using uint_u8_less [of v] by linarith
  then show ?thesis
    by (simp add: decayed_def uint_to_uint8)
qed

lemma decayed_le:
  assumes "0 \<le> d" and "\<And>v. src = Some v \<Longrightarrow> v \<le> N"
  shows "decayed src d \<le> N"
proof (cases src)
  case None
  then show ?thesis by (simp add: decayed_def)
next
  case (Some v)
  have "uint (decayed (Some v) d) \<le> uint v"
    using assms(1) by (simp add: uint_decayed)
  moreover have "uint v \<le> uint N"
    using assms(2) [OF Some] by (simp add: word_le_def)
  ultimately show ?thesis
    using Some by (simp add: word_le_def)
qed

lemma ta_get_in_set: "ta_get a i = Some v \<Longrightarrow> v \<in> set a"
  by (auto simp: ta_get_def split: if_splits)

lemma set_ta_set: "set (ta_set a i v) \<subseteq> insert v (set a)"
  by (auto simp: ta_set_def dest: subsetD [OF set_update_subset_insert])

lemma spread_range:
  assumes "0 \<le> g 0" and "\<forall>v\<in>set (pixels r). v \<le> N"
  shows "\<forall>v\<in>set (pixels (fst (spread r from g))). v \<le> N"
proof (cases "from < width r")
  case True
  then show ?thesis using assms by (simp add: spread_noop)
next
  case False
  have d: "0 \<le> \<lfloor>fmul (g 0) 3\<rfloor>" using assms(1) by (rule floor_fmul3_nonneg)
  have "decayed (ta_get (pixels r) (int from)) \<lfloor>fmul (g 0) 3\<rfloor> \<le> N"
    using d assms(2) by (intro decayed_le) (auto dest: ta_get_in_set)
  then show ?thesis
    using False assms(2) set_ta_set by (fastforce simp: spread_eq)
qed

lemma spread_valid_rng: "valid_rng g \<Longrightarrow> valid_rng (snd (spread r from g))"
  by (cases "from < width r") (simp_all add: spread_noop spread_eq valid_rng_def)

lemma spread_all_valid_rng: "valid_rng g \<Longrightarrow> valid_rng (snd (spread_all r fs g))"
proof (induction fs arbitrary: r g)
  case Nil
  then show ?case by simp
next
  case (Cons f fs)
  obtain r' g' where s: "spread r f g = (r', g')"
    by (cases "spread r f g")
  have "valid_rng g'"
    using spread_valid_rng [OF Cons.prems, of r f] s by simp
  then show ?case
    using s Cons.IH by simp
qed

lemma spread_all_range:
  assumes "valid_rng g" and "\<forall>v\<in>set (pixels r). v \<le> N"
  shows "\<forall>v\<in>set (pixels (fst (spread_all r fs g))). v \<le> N"
  using assms
proof (induction fs arbitrary: r g)
  case Nil
  then show ?case by simp
next
  case (Cons f fs)
  obtain r' g' where s: "spread r f g = (r', g')"
    by (cases "spread r f g")
  have g': "valid_rng g'"
    using spread_valid_rng [OF Cons.prems(1), of r f] s by simp
  have "0 \<le> g 0"
    using Cons.prems(1) by (simp add: valid_rng_def)
  then have "\<forall>v\<in>set (pixels r'). v \<le> N"
    using spread_range [of g r N f] Cons.prems(2) s by simp
  then show ?case
    using s Cons.IH [OF g'] by simp
qed

lemma spread_length [simp]: "length (pixels (fst (spread r from g))) = length (pixels r)"
  by (cases "from < width r") (simp_all add: spread_noop spread_eq)

lemma spread_all_length [simp]:
  "length (pixels (fst (spread_all r fs g))) = length (pixels r)"
proof (induction fs arbitrary: r g)
  case Nil
  show ?case by simp
next
  case (Cons f fs)
  obtain r' g' where s: "spread r f g = (r', g')"
    by (cases "spread r f g")
  have "length (pixels r') = length (pixels r)"
    using spread_length [of r f g] s by simp
  then show ?case
    using s Cons.IH [of r' g'] by simp
qed

lemma ta_set_nth_other: "i \<noteq> int j \<Longrightarrow> ta_set a i v ! j = a ! j"
  by (auto simp: ta_set_def)

lemma spread_to_le: "spread_to r from v \<le> int from - int (width r) + 1"
  by (simp add: spread_to_def)

lemma spread_untouched:
  assumes "int from - int (width r) + 1 < int i"
  shows "pixels (fst (spread r from g)) ! i = pixels r ! i"
proof (cases "from < width r")
  case True
  then show ?thesis by (simp add: spread_noop)
next
  case False
  have "spread_to r from (g 1) \<noteq> int i"
    using spread_to_le [of r "from" "g 1"] assms by linarith
  then show ?thesis
    using False by (simp add: spread_eq ta_set_nth_other)
qed

lemma spread_all_untouched:
  assumes "\<forall>from\<in>set fs. int from - int (width r) + 1 < int i"
  shows "pixels (fst (spread_all r fs g)) ! i = pixels r ! i"
  using assms
proof (induction fs arbitrary: r g)
  case Nil
  show ?case by simp
next
  case (Cons f fs)
  obtain r' g' where s: "spread r f g = (r', g')"
    by (cases "spread r f g")
  have w: "width r' = width r"
    using spread_width [of r f g] s by simp
  have "pixels r' ! i = pixels r ! i"
    using spread_untouched [of f r i g] Cons.prems s by simp
  moreover have "pixels (fst (spread_all r' fs g')) ! i = pixels r' ! i"
    using Cons.prems by (intro Cons.IH) (simp add: w)
  ultimately show ?case
    using s by simp
qed

lemma ta_get_nth: "i < length a \<Longrightarrow> ta_get a (int i) = Some (a ! i)"
  by (simp add: ta_get_def)

lemma spread_cells:
  assumes "width r \<le> from" and "from < length (pixels r)" and "0 \<le> g 0"
    and "i < length (pixels r)"
  shows "uint (pixels (fst (spread r from g)) ! i) =
    (if int i = int from - int (width r) + (if g 1 > 1 / 2 then 1 else - 1)
     then max (uint (pixels r ! from) - \<lfloor>fmul (g 0) 3\<rfloor>) 0
     else uint (pixels r ! i))"
proof -
  have d: "0 \<le> \<lfloor>fmul (g 0) 3\<rfloor>" using assms(3) by (rule floor_fmul3_nonneg)
  have "pixels (fst (spread r from g)) ! i =
      (if spread_to r from (g 1) = int i
       then decayed (Some (pixels r ! from)) \<lfloor>fmul (g 0) 3\<rfloor> else pixels r ! i)"
    using assms(1,2,4) by (simp add: spread_eq ta_get_nth ta_set_nth)
  then show ?thesis
    using uint_decayed [OF d, of "pixels r ! from"] by (auto simp: spread_to_def)
qed

section \<open>The spread rule and the traversal\<close>

text \<open>
  C1. \<^verbatim>\<open>update()\<close> applies the spread rule to the sources \<open>y * width + x\<close> in
  column-major order, for the rows \<open>y\<close> from 1 to \<open>height - 1\<close>; every such source
  lies below row 0 and inside the grid. For a source in row 0 the rule does nothing and
  draws nothing. For any other source inside the buffer it draws twice. The decay is the
  floor of the double product of the first draw and 3, which is 0, 1 or 2: it is 0 when
  three times the draw is below \<open>1 - 2^-54\<close>, 1 from there up to \<open>2 - 2^-53\<close>,
  and 2 from there on, so that the double just below one third decays by 1 and the
  double just below two thirds by 2. The destination index is the source index minus the
  width, plus 1 when the second draw exceeds one half and minus 1 otherwise; the cell at
  the destination index, if there is one, becomes \<open>max (source - decay) 0\<close>, and
  no other cell and no other field changes.
\<close>

theorem spread_rule:
  assumes "0 < scale r" and "double_rng g"
  shows
   "update r g = spread_all r (sources (width r) (height r)) g \<and>
    (\<forall>from\<in>set (sources (width r) (height r)). width r \<le> from \<and> from < width r * height r) \<and>
    (\<forall>from. from < width r \<longrightarrow> spread r from g = (r, g)) \<and>
    (\<forall>from. width r \<le> from \<and> from < length (pixels r) \<longrightarrow>
       (let decay = \<lfloor>fmul (g 0) 3\<rfloor>;
            to = int from - int (width r) + (if g 1 > 1 / 2 then 1 else - 1);
            r' = fst (spread r from g)
        in decay \<in> {0, 1, 2} \<and>
           decay = (if g 0 * 3 < 1 - 1 / 2 ^ 54 then 0
                    else if g 0 * 3 < 2 - 1 / 2 ^ 53 then 1 else 2) \<and>
           r' = r\<lparr>pixels := pixels r'\<rparr> \<and>
           length (pixels r') = length (pixels r) \<and>
           (\<forall>i<length (pixels r).
              uint (pixels r' ! i) =
                (if int i = to then max (uint (pixels r ! from) - decay) 0
                 else uint (pixels r ! i))) \<and>
           snd (spread r from g) = (\<lambda>n. g (n + 2)))) \<and>
    \<lfloor>fmul (1 / 4) 3\<rfloor> = 0 \<and> \<lfloor>fmul (1 / 2) 3\<rfloor> = 1 \<and> \<lfloor>fmul (3 / 4) 3\<rfloor> = 2 \<and>
    \<lfloor>fmul (6004799503160661 / 2 ^ 54) 3\<rfloor> = 1 \<and>
    \<lfloor>fmul (6004799503160661 / 2 ^ 53) 3\<rfloor> = 2"
proof -
  have v: "0 \<le> g 0" "g 0 \<le> 1 - 1 / 2 ^ 53"
    using assms(2) by (rule double_rng_bounds)+
  have range: "\<lfloor>fmul (g 0) 3\<rfloor> \<in> {0, 1, 2}"
    using v by (rule floor_fmul3_range)
  have thresholds: "\<lfloor>fmul (g 0) 3\<rfloor> =
      (if g 0 * 3 < 1 - 1 / 2 ^ 54 then 0 else if g 0 * 3 < 2 - 1 / 2 ^ 53 then 1 else 2)"
    using v by (rule floor_fmul3_eq)
  have a: "update r g = spread_all r (sources (width r) (height r)) g"
    by (rule update_spread_all)
  have b: "\<forall>from\<in>set (sources (width r) (height r)). width r \<le> from \<and> from < width r * height r"
    using source_bounds by blast
  have c: "\<forall>from. from < width r \<longrightarrow> spread r from g = (r, g)"
    by (simp add: spread_noop)
  have d: "\<forall>from. width r \<le> from \<and> from < length (pixels r) \<longrightarrow>
       (let decay = \<lfloor>fmul (g 0) 3\<rfloor>;
            to = int from - int (width r) + (if g 1 > 1 / 2 then 1 else - 1);
            r' = fst (spread r from g)
        in decay \<in> {0, 1, 2} \<and>
           decay = (if g 0 * 3 < 1 - 1 / 2 ^ 54 then 0
                    else if g 0 * 3 < 2 - 1 / 2 ^ 53 then 1 else 2) \<and>
           r' = r\<lparr>pixels := pixels r'\<rparr> \<and>
           length (pixels r') = length (pixels r) \<and>
           (\<forall>i<length (pixels r).
              uint (pixels r' ! i) =
                (if int i = to then max (uint (pixels r ! from) - decay) 0
                 else uint (pixels r ! i))) \<and>
           snd (spread r from g) = (\<lambda>n. g (n + 2)))"
  proof (intro allI impI)
    fix "from" assume f: "width r \<le> from \<and> from < length (pixels r)"
    have cells: "\<forall>i<length (pixels r).
        uint (pixels (fst (spread r from g)) ! i) =
          (if int i = int from - int (width r) + (if g 1 > 1 / 2 then 1 else - 1)
           then max (uint (pixels r ! from) - \<lfloor>fmul (g 0) 3\<rfloor>) 0
           else uint (pixels r ! i))"
      using f v(1) by (simp add: spread_cells)
    have rest: "snd (spread r from g) = (\<lambda>n. g (n + 2))"
      using f by (simp add: spread_eq)
    show "let decay = \<lfloor>fmul (g 0) 3\<rfloor>;
            to = int from - int (width r) + (if g 1 > 1 / 2 then 1 else - 1);
            r' = fst (spread r from g)
        in decay \<in> {0, 1, 2} \<and>
           decay = (if g 0 * 3 < 1 - 1 / 2 ^ 54 then 0
                    else if g 0 * 3 < 2 - 1 / 2 ^ 53 then 1 else 2) \<and>
           r' = r\<lparr>pixels := pixels r'\<rparr> \<and>
           length (pixels r') = length (pixels r) \<and>
           (\<forall>i<length (pixels r).
              uint (pixels r' ! i) =
                (if int i = to then max (uint (pixels r ! from) - decay) 0
                 else uint (pixels r ! i))) \<and>
           snd (spread r from g) = (\<lambda>n. g (n + 2))"
      unfolding Let_def
      using range thresholds spread_frame [of r "from" g] cells rest
      by (intro conjI) simp_all
  qed
  note e = fmul_examples
  from a b c d e show ?thesis by (intro conjI)
qed

theorem spread_rule_witness:
  "0 < scale example_renderer \<and> double_rng (\<lambda>n. 3 / 4) \<and>
   update example_renderer (\<lambda>n. 3 / 4) =
     spread_all example_renderer [4, 8, 12, 5, 9, 13, 6, 10, 14, 7, 11, 15] (\<lambda>n. 3 / 4) \<and>
   spread example_renderer 3 (\<lambda>n. 3 / 4) = (example_renderer, \<lambda>n. 3 / 4) \<and>
   uint (pixels (fst (spread example_renderer 15 (\<lambda>n. 3 / 4))) ! 12) = 34"
proof -
  have s: "0 < scale example_renderer"
    by (simp add: example_renderer_def)
  have g: "double_rng (\<lambda>n. 3 / 4)"
    by (rule double_rng_three_quarters)
  note t = spread_rule [OF s g, unfolded example_renderer_dims sources_4_4]
  have a: "update example_renderer (\<lambda>n. 3 / 4) =
     spread_all example_renderer [4, 8, 12, 5, 9, 13, 6, 10, 14, 7, 11, 15] (\<lambda>n. 3 / 4)"
    using t by (rule conjunct1)
  have b: "spread example_renderer 3 (\<lambda>n. 3 / 4) = (example_renderer, \<lambda>n. 3 / 4)"
    using t [THEN conjunct2, THEN conjunct2, THEN conjunct1, rule_format, of 3] by simp
  have px: "pixels example_renderer ! 15 = 36"
    by (simp add: example_renderer_def)
  have c: "uint (pixels (fst (spread example_renderer 15 (\<lambda>n. 3 / 4))) ! 12) = 34"
    using t [THEN conjunct2, THEN conjunct2, THEN conjunct2, THEN conjunct1, rule_format, of 15]
    by (simp add: Let_def px fmul_examples)
  from s g a b c show ?thesis by (intro conjI)
qed


section \<open>The grid after reset\<close>

lemma reset_pixels:
  "length (pixels (state_of (reset r))) = width r * height r \<and>
    (\<forall>y<height r. \<forall>x<width r.
       pixels (state_of (reset r)) ! (y * width r + x) = (if y = height r - 1 then 36 else 0))"
proof -
  let ?r0 = "r\<lparr>pixels := replicate (width r * height r) 0\<rparr>"
  have wh: "width ?r0 = width r" "height ?r0 = height r"
    by (simp_all add: width_def height_def)
  have px: "pixels (state_of (reset r)) = pixels (reset_row ?r0 0)"
    by (simp add: reset_def)
  have len: "length (pixels (state_of (reset r))) = width r * height r"
    by (simp add: px)
  have "pixels (state_of (reset r)) ! (y * width r + x) = (if y = height r - 1 then 36 else 0)"
    if "y < height r" "x < width r" for x y
  proof -
    have i: "y * width r + x < width r * height r"
      using that by (simp add: cell_index_less)
    have up: "int (y * width r + x) < (int (height r) - 1) * int (width r) + int (width r)"
    proof -
      have "int (y * width r + x) < int (width r * height r)"
        using i by (simp only: of_nat_less_iff)
      also have "int (width r * height r) = (int (height r) - 1) * int (width r) + int (width r)"
        by (simp add: algebra_simps)
      finally show ?thesis .
    qed
    have "pixels (reset_row ?r0 0) ! (y * width r + x) =
      (if (int (height r) - 1) * int (width r) \<le> int (y * width r + x) then 36 else 0)"
      using reset_row_nth [of "y * width r + x" ?r0 0] i up by (simp add: wh)
    also have "\<dots> = (if y = height r - 1 then 36 else 0)"
      by (simp only: cell_in_bottom_row [OF that(2) that(1)])
    finally show ?thesis
      by (simp only: px)
  qed
  with len show ?thesis by blast
qed

text \<open>
  C3. Immediately after \<^verbatim>\<open>reset()\<close>, whether it returned or threw on its way out, the
  heat buffer has \<open>width * height\<close> cells, every cell of the bottom row is 36 and every
  cell of every other row is 0, for every width and height of the grid.
\<close>

theorem reset_source_row:
  assumes "0 < scale r"
  shows "length (pixels (state_of (reset r))) = width r * height r \<and>
    (\<forall>y<height r. \<forall>x<width r.
       pixels (state_of (reset r)) ! (y * width r + x) = (if y = height r - 1 then 36 else 0))"
  by (rule reset_pixels)

theorem reset_source_row_witness:
  "0 < scale example_renderer \<and>
   length (pixels (state_of (reset example_renderer))) = 16 \<and>
   pixels (state_of (reset example_renderer)) ! 12 = 36 \<and>
   pixels (state_of (reset example_renderer)) ! 0 = 0"
proof -
  have s: "0 < scale example_renderer"
    by (simp add: example_renderer_def)
  note t = reset_source_row [OF s, unfolded example_renderer_dims]
  from t have len: "length (pixels (state_of (reset example_renderer))) = 16"
    by simp
  note cells = t [THEN conjunct2, rule_format]
  have a: "pixels (state_of (reset example_renderer)) ! 12 = 36"
    using cells [of 3 0] by simp
  have b: "pixels (state_of (reset example_renderer)) ! 0 = 0"
    using cells [of 0 0] by simp
  from s len a b show ?thesis by blast
qed

section \<open>The range of the intensities\<close>

lemma reset_range: "\<forall>v\<in>set (pixels (state_of (reset r))). v \<le> 36"
proof -
  let ?r0 = "r\<lparr>pixels := replicate (width r * height r) 0\<rparr>"
  have px: "pixels (state_of (reset r)) = pixels (reset_row ?r0 0)"
    by (simp add: reset_def)
  have "pixels (reset_row ?r0 0) ! i \<le> 36" if "i < length (pixels (reset_row ?r0 0))" for i
  proof -
    have i: "i < length (pixels ?r0)" using that by simp
    then have "pixels ?r0 ! i = 0" by simp
    then show ?thesis
      using reset_row_nth [OF i, of 0] by (simp split: if_splits)
  qed
  then show ?thesis
    unfolding px by (auto simp: in_set_conv_nth)
qed

lemma update_range:
  assumes "valid_rng g" and "\<forall>v\<in>set (pixels r). v \<le> N"
  shows "\<forall>v\<in>set (pixels (fst (update r g))). v \<le> N"
  unfolding update_spread_all using assms by (rule spread_all_range)

lemma update_length [simp]: "length (pixels (fst (update r g))) = length (pixels r)"
  by (simp add: update_spread_all)

lemma update_frame: "fst (update r g) = r\<lparr>pixels := pixels (fst (update r g))\<rparr>"
  unfolding update_spread_all by (rule spread_all_frame)

lemma update_valid_rng: "valid_rng g \<Longrightarrow> valid_rng (snd (update r g))"
  unfolding update_spread_all by (rule spread_all_valid_rng)

lemma reachable_range: "reachable r \<Longrightarrow> \<forall>v\<in>set (pixels r). v \<le> 36"
proof (induction rule: reachable.induct)
  case (after_reset r)
  show ?case by (rule reset_range)
next
  case (after_update r g)
  then show ?case by (intro update_range)
qed

lemma example_reset_pixels:
  "pixels (state_of (reset example_renderer)) = [0, 0, 0, 0, 0, 0, 0, 0, 0, 0, 0, 0, 36, 36, 36, 36]"
  by code_simp

lemma example_update_pixels:
  "pixels (fst (update (state_of (reset example_renderer)) (\<lambda>n. 3 / 4))) =
     [0, 0, 0, 30, 30, 0, 32, 32, 32, 34, 34, 34, 34, 36, 36, 36]"
  by code_simp

text \<open>
  C2. In every state that \<^verbatim>\<open>reset()\<close> followed by any number of \<^verbatim>\<open>update()\<close>
  calls leads to, every cell of the heat buffer lies in the range from 0 to 36.
\<close>

theorem intensity_range:
  assumes "reachable r"
  shows "\<forall>i<length (pixels r). 0 \<le> uint (pixels r ! i) \<and> uint (pixels r ! i) \<le> 36"
proof (intro allI impI)
  fix i assume "i < length (pixels r)"
  then have "pixels r ! i \<le> 36"
    using reachable_range [OF assms] by simp
  then show "0 \<le> uint (pixels r ! i) \<and> uint (pixels r ! i) \<le> 36"
    by (simp add: word_le_def)
qed

theorem intensity_range_witness:
  "reachable (fst (update (state_of (reset example_renderer)) (\<lambda>n. 3 / 4))) \<and>
   0 \<le> uint (pixels (fst (update (state_of (reset example_renderer)) (\<lambda>n. 3 / 4))) ! 3) \<and>
   uint (pixels (fst (update (state_of (reset example_renderer)) (\<lambda>n. 3 / 4))) ! 3) \<le> 36"
proof -
  have s: "0 < scale example_renderer"
    by (simp add: example_renderer_def)
  have g: "valid_rng (\<lambda>n. 3 / 4)"
    by (simp add: valid_rng_def)
  have r: "reachable (fst (update (state_of (reset example_renderer)) (\<lambda>n. 3 / 4)))"
    by (intro after_update after_reset s g)
  have len: "3 < length (pixels (fst (update (state_of (reset example_renderer)) (\<lambda>n. 3 / 4))))"
    by (simp add: example_update_pixels)
  note t = intensity_range [OF r, rule_format, OF len]
  from r t show ?thesis by (rule conjI)
qed

section \<open>The last source of an update and the bottom row\<close>

lemma spread_all_rng:
  assumes "\<forall>from\<in>set fs. width r \<le> from"
  shows "snd (spread_all r fs g) = (\<lambda>n. g (n + 2 * length fs))"
  using assms
proof (induction fs arbitrary: r g)
  case Nil
  show ?case by simp
next
  case (Cons f fs)
  have f: "width r \<le> f" using Cons.prems by simp
  obtain r' where s: "spread r f g = (r', \<lambda>n. g (n + 2))"
    using spread_eq [OF f, of g] by simp
  have w: "width r' = width r"
    using spread_width [of r f g] s by simp
  have "snd (spread_all r' fs (\<lambda>n. g (n + 2))) = (\<lambda>n. g (n + 2 * length fs + 2))"
    using Cons.prems by (subst Cons.IH) (simp_all add: w)
  then show ?case
    using s by simp
qed

lemma length_column_sources [simp]: "length (column_sources w h x) = h - 1"
  by (simp add: column_sources_def)

lemma length_sources: "length (sources w h) = w * (h - 1)"
  by (simp add: sources_def length_concat comp_def sum_list_triv)

lemma sources_snoc:
  assumes "0 < w" "2 \<le> h"
  shows "sources w h = earlier_sources w h @ [(h - 1) * w + (w - 1)]"
proof -
  obtain m where w: "w = Suc m" using assms(1) by (cases w) auto
  obtain n where h: "h = Suc (Suc n)" using assms(2) by (cases h; cases "h - 1") auto
  have "[1..<h] = [1..<h - 1] @ [h - 1]"
    unfolding h by simp
  then have "column_sources w h (w - 1) =
      map (\<lambda>y. y * w + (w - 1)) [1..<h - 1] @ [(h - 1) * w + (w - 1)]"
    by (simp add: column_sources_def)
  moreover have "[0..<w] = [0..<w - 1] @ [w - 1]"
    unfolding w by simp
  ultimately show ?thesis
    by (simp add: sources_def earlier_sources_def)
qed

lemma earlier_sources_bounds:
  assumes "from \<in> set (earlier_sources w h)" "0 < w"
  shows "w \<le> from \<and> from + 2 \<le> w * h"
proof -
  from assms(1) consider
    (left) x y where "x < w - 1" "1 \<le> y" "y < h" "from = y * w + x"
  | (last) y where "1 \<le> y" "y < h - 1" "from = y * w + (w - 1)"
    by (auto simp: earlier_sources_def column_sources_def)
  then show ?thesis
  proof cases
    case left
    have "1 * w \<le> y * w" using left(2) by (rule mult_le_mono1)
    then have a: "w \<le> from" unfolding left(4) by linarith
    have "Suc y * w \<le> h * w" using left(3) by (intro mult_le_mono1) simp
    then have "y * w + w \<le> w * h" by (simp add: mult.commute)
    then have "from + 2 \<le> w * h" unfolding left(4) using left(1) by linarith
    with a show ?thesis ..
  next
    case last
    have "1 * w \<le> y * w" using last(1) by (rule mult_le_mono1)
    then have a: "w \<le> from" unfolding last(3) by linarith
    have "Suc (Suc y) * w \<le> h * w" using last(2) by (intro mult_le_mono1) simp
    then have "y * w + w + w \<le> w * h" by (simp add: mult.commute)
    then have "from + 2 \<le> w * h" unfolding last(3) using assms(2) by linarith
    with a show ?thesis ..
  qed
qed

lemma length_earlier_sources:
  assumes "0 < w" "2 \<le> h"
  shows "length (earlier_sources w h) = w * (h - 1) - 1"
proof -
  have "length (sources w h) = Suc (length (earlier_sources w h))"
    by (simp add: sources_snoc [OF assms])
  then show ?thesis by (simp add: length_sources)
qed

lemma update_bottom_row:
  assumes w: "0 < width r" and h: "2 \<le> height r"
    and len: "length (pixels r) = width r * height r"
    and k: "k = width r * (height r - 1) - 1"
    and g0: "0 \<le> g (2 * k)"
    and x: "x < width r"
  shows "uint (pixels (fst (update r g)) ! ((height r - 1) * width r + x)) =
     (if x = 0 \<and> g (2 * k + 1) > 1 / 2
      then max (uint (pixels r ! (width r * height r - 1)) - \<lfloor>fmul (g (2 * k)) 3\<rfloor>) 0
      else uint (pixels r ! ((height r - 1) * width r + x)))"
proof -
  define B where "B = (height r - 1) * width r"
  define L where "L = B + (width r - 1)"
  define S where "S = earlier_sources (width r) (height r)"
  have Bw: "B + width r = width r * height r"
  proof -
    have "height r = Suc (height r - 1)" using h by simp
    then have "width r * height r = width r * Suc (height r - 1)" by simp
    then show ?thesis by (simp add: B_def mult.commute)
  qed
  have wB: "width r \<le> B"
  proof -
    have "1 * width r \<le> (height r - 1) * width r"
      using h by (intro mult_le_mono1) simp
    then show ?thesis by (simp add: B_def)
  qed
  have L1: "L + 1 = B + width r" using w by (simp add: L_def)
  have Lw: "L = width r * height r - 1" using L1 Bw by linarith
  have src: "sources (width r) (height r) = S @ [L]"
    unfolding S_def L_def B_def by (rule sources_snoc [OF w h])
  have Sb: "\<forall>from\<in>set S. width r \<le> from \<and> from + 2 \<le> B + width r"
    unfolding S_def Bw using earlier_sources_bounds [OF _ w] by blast
  have Sl: "length S = k"
    unfolding S_def k by (rule length_earlier_sources [OF w h])
  obtain r1 g1 where s1: "spread_all r S g = (r1, g1)"
    by (cases "spread_all r S g")
  have g1: "g1 = (\<lambda>n. g (n + 2 * k))"
    using spread_all_rng [of S r g] Sb s1 Sl by simp
  have w1: "width r1 = width r"
    using spread_all_width [of r S g] s1 by simp
  have len1: "length (pixels r1) = length (pixels r)"
    using spread_all_length [of r S g] s1 by simp
  have unt: "pixels r1 ! i = pixels r ! i" if "B \<le> i" for i
  proof -
    have "\<forall>from\<in>set S. int from - int (width r) + 1 < int i"
    proof
      fix f assume "f \<in> set S"
      then have "f + 2 \<le> B + width r" using Sb by blast
      with that show "int f - int (width r) + 1 < int i" by linarith
    qed
    then show ?thesis
      using spread_all_untouched [of S r i g] s1 by simp
  qed
  have upd: "update r g = spread r1 L g1"
    by (simp add: update_spread_all src spread_all_append s1 split: prod.splits)
  let ?i = "B + x"
  have i: "?i < length (pixels r1)"
    using x by (simp add: len1 len Bw [symmetric])
  have Lr: "width r1 \<le> L" "L < length (pixels r1)"
    using wB w by (simp_all add: w1 len1 len Bw [symmetric] L_def)
  have g10: "0 \<le> g1 0" using g0 by (simp add: g1)
  have "uint (pixels (fst (spread r1 L g1)) ! ?i) =
    (if int ?i = int L - int (width r1) + (if g1 1 > 1 / 2 then 1 else - 1)
     then max (uint (pixels r1 ! L) - \<lfloor>fmul (g1 0) 3\<rfloor>) 0
     else uint (pixels r1 ! ?i))"
    using Lr g10 i by (rule spread_cells)
  moreover have "(int ?i = int L - int (width r1) + (if g1 1 > 1 / 2 then 1 else - 1)) =
      (x = 0 \<and> g (2 * k + 1) > 1 / 2)"
    using L1 by (auto simp: w1 g1)
  moreover have "pixels r1 ! L = pixels r ! L"
    by (rule unt) (simp add: L_def)
  moreover have "pixels r1 ! ?i = pixels r ! ?i"
    by (rule unt) simp
  moreover have "g1 0 = g (2 * k)"
    by (simp add: g1)
  ultimately have "uint (pixels (fst (update r g)) ! ?i) =
     (if x = 0 \<and> g (2 * k + 1) > 1 / 2
      then max (uint (pixels r ! L) - \<lfloor>fmul (g (2 * k)) 3\<rfloor>) 0
      else uint (pixels r ! ?i))"
    by (simp only: upd)
  then show ?thesis
    by (simp only: Lw B_def)
qed

lemma reset_pixels_cong:
  assumes "width r = width r'" "height r = height r'"
  shows "pixels (state_of (reset r)) = pixels (state_of (reset r'))"
proof -
  let ?r0 = "r\<lparr>pixels := replicate (width r * height r) 0\<rparr>"
  let ?r0' = "r'\<lparr>pixels := replicate (width r' * height r') 0\<rparr>"
  have wh: "width ?r0 = width r" "height ?r0 = height r"
    "width ?r0' = width r'" "height ?r0' = height r'"
    by (simp_all add: width_def height_def)
  have "pixels (reset_row ?r0 0) = pixels (reset_row ?r0' 0)"
  proof (rule nth_equalityI)
    show "length (pixels (reset_row ?r0 0)) = length (pixels (reset_row ?r0' 0))"
      using assms by simp
  next
    fix i assume "i < length (pixels (reset_row ?r0 0))"
    then have i: "i < length (pixels ?r0)" "i < length (pixels ?r0')"
      using assms by simp_all
    show "pixels (reset_row ?r0 0) ! i = pixels (reset_row ?r0' 0) ! i"
      unfolding reset_row_nth [OF i(1)] reset_row_nth [OF i(2)] wh
      using assms i by simp
  qed
  then show ?thesis by (simp add: reset_def)
qed

lemma dims_4_4:
  assumes "scale r = 1" "canvas r = \<lparr>cwidth = 4, cheight = 4\<rparr>"
  shows "width r = 4" "height r = 4"
  using assms by (simp_all add: width_def height_def)

lemma reset_dims:
  "width (state_of (reset r)) = width r" "height (state_of (reset r)) = height r"
  by (simp_all add: width_def height_def reset_def, (subst reset_row_frame, simp)+)

section \<open>One update of the 4 by 4 grid, cell by cell\<close>

lemma upt_0_16: "[0..<16] = [0, 1, 2, 3, 4, 5, 6, 7, 8, 9, 10, 11, 12, 13, 14, 15]"
  by code_simp

lemma spread_all_snoc_cells:
  assumes "\<forall>x\<in>set fs. width r \<le> x" and "width r \<le> f" and "f < length (pixels r)"
    and "0 \<le> g (2 * length fs)" and "i < length (pixels r)"
  shows "uint (pixels (fst (spread_all r (fs @ [f]) g)) ! i) =
    (if int i = int f - int (width r) + (if g (2 * length fs + 1) > 1 / 2 then 1 else - 1)
     then max (uint (pixels (fst (spread_all r fs g)) ! f) - \<lfloor>fmul (g (2 * length fs)) 3\<rfloor>) 0
     else uint (pixels (fst (spread_all r fs g)) ! i))"
proof -
  let ?r = "fst (spread_all r fs g)"
  let ?g = "\<lambda>n. g (n + 2 * length fs)"
  have g': "snd (spread_all r fs g) = ?g"
    using assms(1) by (rule spread_all_rng)
  have "spread_all r (fs @ [f]) g = spread ?r f ?g"
    by (simp add: spread_all_append split: prod.splits) (use g' in auto)
  moreover have "width ?r = width r"
    by (subst spread_all_frame) (simp add: width_def)
  moreover have "length (pixels ?r) = length (pixels r)"
    by simp
  ultimately show ?thesis
    using spread_cells [of ?r f ?g i] assms(2-5) by simp
qed

lemma spread_all_snoc_16:
  assumes "width r = 4" and "length (pixels r) = 16" and "double_rng g"
    and "map uint (pixels (fst (spread_all r fs g))) = xs"
    and "\<forall>x\<in>set fs. 4 \<le> x" and "4 \<le> f" and "f < 16"
    and "dj = \<lfloor>fmul (g (2 * length fs)) 3\<rfloor>" and "Rj = (1 / 2 < g (2 * length fs + 1))"
  shows "map uint (pixels (fst (spread_all r (fs @ [f]) g))) =
    map (\<lambda>i. if int i = int f - 4 + (if Rj then 1 else - 1) then max (xs ! f - dj) 0 else xs ! i)
      [0, 1, 2, 3, 4, 5, 6, 7, 8, 9, 10, 11, 12, 13, 14, 15]"
  unfolding upt_0_16 [symmetric]
proof (rule nth_equalityI)
  show "length (map uint (pixels (fst (spread_all r (fs @ [f]) g)))) =
    length (map (\<lambda>i. if int i = int f - 4 + (if Rj then 1 else - 1) then max (xs ! f - dj) 0 else xs ! i)
      [0..<16])"
    by (simp add: assms(2))
next
  fix i assume "i < length (map uint (pixels (fst (spread_all r (fs @ [f]) g))))"
  then have i: "i < 16" by (simp add: assms(2))
  have g0: "0 \<le> g (2 * length fs)"
    using assms(3) by (rule double_rng_bounds)
  have x: "xs ! k = uint (pixels (fst (spread_all r fs g)) ! k)" if "k < 16" for k
    using that assms(2) by (simp add: assms(4) [symmetric])
  have "uint (pixels (fst (spread_all r (fs @ [f]) g)) ! i) =
    (if int i = int f - int (width r) + (if g (2 * length fs + 1) > 1 / 2 then 1 else - 1)
     then max (uint (pixels (fst (spread_all r fs g)) ! f) - \<lfloor>fmul (g (2 * length fs)) 3\<rfloor>) 0
     else uint (pixels (fst (spread_all r fs g)) ! i))"
    using assms(5,6,7) g0 i by (intro spread_all_snoc_cells) (simp_all add: assms(1,2))
  then show "map uint (pixels (fst (spread_all r (fs @ [f]) g))) ! i =
    map (\<lambda>i. if int i = int f - 4 + (if Rj then 1 else - 1) then max (xs ! f - dj) 0 else xs ! i)
      [0..<16] ! i"
    using i assms(6,7) by (simp add: assms(1,2,8,9) x del: upt_rec_numeral)
qed

lemma update_4x4_cells:
  fixes d :: "nat \<Rightarrow> int" and R :: "nat \<Rightarrow> bool"
  assumes w: "width r = 4" and h: "height r = 4"
    and px: "map uint (pixels r) = [0, 0, 0, 0, 0, 0, 0, 0, 0, 0, 0, 0, 36, 36, 36, 36]"
    and g: "double_rng g"
    and d: "\<And>j. d j = \<lfloor>fmul (g (2 * j)) 3\<rfloor>" and R: "\<And>j. R j = (1 / 2 < g (2 * j + 1))"
  shows "map uint (pixels (fst (update r g))) =
      [0,
       (if \<not> R 6 then max (((if R 4 then max (((if R 2 then 36 - d 2 else 0)) - d 4) 0 else 0)) - d 6) 0 else 0),
       (if \<not> R 9 then max (((if R 7 then max (((if R 5 then 36 - d 5 else 0)) - d 7) 0 else (if \<not> R 2 then 36 - d 2 else 0))) - d 9) 0 else 0),
       (if R 6 then max (((if R 4 then max (((if R 2 then 36 - d 2 else 0)) - d 4) 0 else 0)) - d 6) 0 else 0),
       (if R 9 then max (((if R 7 then max (((if R 5 then 36 - d 5 else 0)) - d 7) 0 else (if \<not> R 2 then 36 - d 2 else 0))) - d 9) 0 else (if \<not> R 4 then max (((if R 2 then 36 - d 2 else 0)) - d 4) 0 else 0)),
       (if \<not> R 7 then max (((if R 5 then 36 - d 5 else 0)) - d 7) 0 else 0),
       (if \<not> R 10 then max (((if R 8 then 36 - d 8 else 0)) - d 10) 0 else (if R 4 then max (((if R 2 then 36 - d 2 else 0)) - d 4) 0 else 0)),
       (if R 7 then max (((if R 5 then 36 - d 5 else 0)) - d 7) 0 else (if \<not> R 2 then 36 - d 2 else 0)),
       (if R 10 then max (((if R 8 then 36 - d 8 else 0)) - d 10) 0 else (if \<not> R 5 then 36 - d 5 else 0)),
       (if \<not> R 8 then 36 - d 8 else (if R 2 then 36 - d 2 else 0)),
       (if \<not> R 11 then 36 - d 11 else (if R 5 then 36 - d 5 else 0)),
       (if R 8 then 36 - d 8 else 0),
       (if R 11 then 36 - d 11 else 36),
       36,
       36,
       36]"
proof -
  have len: "length (pixels r) = 16"
    using arg_cong [OF px, of length] by simp
  have d0: "0 \<le> d j" and d2: "d j \<le> 2" for j
    using floor_fmul3_nonneg [of "g (2 * j)"] floor_fmul3_le [of "g (2 * j)"]
      double_rng_bounds [OF g, of "2 * j"] by (simp_all add: d)
  have s0: "map uint (pixels (fst (spread_all r [] g))) =
      [0,
       0,
       0,
       0,
       0,
       0,
       0,
       0,
       0,
       0,
       0,
       0,
       36,
       36,
       36,
       36]"
    using px by simp
  have s1: "map uint (pixels (fst (spread_all r [4] g))) =
      [0,
       0,
       0,
       0,
       0,
       0,
       0,
       0,
       0,
       0,
       0,
       0,
       36,
       36,
       36,
       36]"
  proof -
    have "map uint (pixels (fst (spread_all r ([] @ [4]) g))) =
      map (\<lambda>i. if int i = int 4 - 4 + (if R 0 then 1 else - 1)
                 then max ([0,
                      0,
                      0,
                      0,
                      0,
                      0,
                      0,
                      0,
                      0,
                      0,
                      0,
                      0,
                      36,
                      36,
                      36,
                      36] ! 4 - d 0) 0
                 else [0,
                      0,
                      0,
                      0,
                      0,
                      0,
                      0,
                      0,
                      0,
                      0,
                      0,
                      0,
                      36,
                      36,
                      36,
                      36] ! i) [0, 1, 2, 3, 4, 5, 6, 7, 8, 9, 10, 11, 12, 13, 14, 15]"
      using w len g s0 by (rule spread_all_snoc_16) (simp_all add: d R)
    then show ?thesis
      using d0 [of 0] d2 [of 0] by (cases "R 0") simp_all
  qed
  have s2: "map uint (pixels (fst (spread_all r [4, 8] g))) =
      [0,
       0,
       0,
       0,
       0,
       0,
       0,
       0,
       0,
       0,
       0,
       0,
       36,
       36,
       36,
       36]"
  proof -
    have "map uint (pixels (fst (spread_all r ([4] @ [8]) g))) =
      map (\<lambda>i. if int i = int 8 - 4 + (if R 1 then 1 else - 1)
                 then max ([0,
                      0,
                      0,
                      0,
                      0,
                      0,
                      0,
                      0,
                      0,
                      0,
                      0,
                      0,
                      36,
                      36,
                      36,
                      36] ! 8 - d 1) 0
                 else [0,
                      0,
                      0,
                      0,
                      0,
                      0,
                      0,
                      0,
                      0,
                      0,
                      0,
                      0,
                      36,
                      36,
                      36,
                      36] ! i) [0, 1, 2, 3, 4, 5, 6, 7, 8, 9, 10, 11, 12, 13, 14, 15]"
      using w len g s1 by (rule spread_all_snoc_16) (simp_all add: d R)
    then show ?thesis
      using d0 [of 1] d2 [of 1] by (cases "R 1") simp_all
  qed
  have s3: "map uint (pixels (fst (spread_all r [4, 8, 12] g))) =
      [0,
       0,
       0,
       0,
       0,
       0,
       0,
       (if \<not> R 2 then 36 - d 2 else 0),
       0,
       (if R 2 then 36 - d 2 else 0),
       0,
       0,
       36,
       36,
       36,
       36]"
  proof -
    have "map uint (pixels (fst (spread_all r ([4, 8] @ [12]) g))) =
      map (\<lambda>i. if int i = int 12 - 4 + (if R 2 then 1 else - 1)
                 then max ([0,
                      0,
                      0,
                      0,
                      0,
                      0,
                      0,
                      0,
                      0,
                      0,
                      0,
                      0,
                      36,
                      36,
                      36,
                      36] ! 12 - d 2) 0
                 else [0,
                      0,
                      0,
                      0,
                      0,
                      0,
                      0,
                      0,
                      0,
                      0,
                      0,
                      0,
                      36,
                      36,
                      36,
                      36] ! i) [0, 1, 2, 3, 4, 5, 6, 7, 8, 9, 10, 11, 12, 13, 14, 15]"
      using w len g s2 by (rule spread_all_snoc_16) (simp_all add: d R)
    then show ?thesis
      using d0 [of 2] d2 [of 2] by (cases "R 2") simp_all
  qed
  have s4: "map uint (pixels (fst (spread_all r [4, 8, 12, 5] g))) =
      [0,
       0,
       0,
       0,
       0,
       0,
       0,
       (if \<not> R 2 then 36 - d 2 else 0),
       0,
       (if R 2 then 36 - d 2 else 0),
       0,
       0,
       36,
       36,
       36,
       36]"
  proof -
    have "map uint (pixels (fst (spread_all r ([4, 8, 12] @ [5]) g))) =
      map (\<lambda>i. if int i = int 5 - 4 + (if R 3 then 1 else - 1)
                 then max ([0,
                      0,
                      0,
                      0,
                      0,
                      0,
                      0,
                      (if \<not> R 2 then 36 - d 2 else 0),
                      0,
                      (if R 2 then 36 - d 2 else 0),
                      0,
                      0,
                      36,
                      36,
                      36,
                      36] ! 5 - d 3) 0
                 else [0,
                      0,
                      0,
                      0,
                      0,
                      0,
                      0,
                      (if \<not> R 2 then 36 - d 2 else 0),
                      0,
                      (if R 2 then 36 - d 2 else 0),
                      0,
                      0,
                      36,
                      36,
                      36,
                      36] ! i) [0, 1, 2, 3, 4, 5, 6, 7, 8, 9, 10, 11, 12, 13, 14, 15]"
      using w len g s3 by (rule spread_all_snoc_16) (simp_all add: d R)
    then show ?thesis
      using d0 [of 3] d2 [of 3] by (cases "R 3") simp_all
  qed
  have s5: "map uint (pixels (fst (spread_all r [4, 8, 12, 5, 9] g))) =
      [0,
       0,
       0,
       0,
       (if \<not> R 4 then max (((if R 2 then 36 - d 2 else 0)) - d 4) 0 else 0),
       0,
       (if R 4 then max (((if R 2 then 36 - d 2 else 0)) - d 4) 0 else 0),
       (if \<not> R 2 then 36 - d 2 else 0),
       0,
       (if R 2 then 36 - d 2 else 0),
       0,
       0,
       36,
       36,
       36,
       36]"
  proof -
    have "map uint (pixels (fst (spread_all r ([4, 8, 12, 5] @ [9]) g))) =
      map (\<lambda>i. if int i = int 9 - 4 + (if R 4 then 1 else - 1)
                 then max ([0,
                      0,
                      0,
                      0,
                      0,
                      0,
                      0,
                      (if \<not> R 2 then 36 - d 2 else 0),
                      0,
                      (if R 2 then 36 - d 2 else 0),
                      0,
                      0,
                      36,
                      36,
                      36,
                      36] ! 9 - d 4) 0
                 else [0,
                      0,
                      0,
                      0,
                      0,
                      0,
                      0,
                      (if \<not> R 2 then 36 - d 2 else 0),
                      0,
                      (if R 2 then 36 - d 2 else 0),
                      0,
                      0,
                      36,
                      36,
                      36,
                      36] ! i) [0, 1, 2, 3, 4, 5, 6, 7, 8, 9, 10, 11, 12, 13, 14, 15]"
      using w len g s4 by (rule spread_all_snoc_16) (simp_all add: d R)
    then show ?thesis
      using d0 [of 4] d2 [of 4] by (cases "R 4") simp_all
  qed
  have s6: "map uint (pixels (fst (spread_all r [4, 8, 12, 5, 9, 13] g))) =
      [0,
       0,
       0,
       0,
       (if \<not> R 4 then max (((if R 2 then 36 - d 2 else 0)) - d 4) 0 else 0),
       0,
       (if R 4 then max (((if R 2 then 36 - d 2 else 0)) - d 4) 0 else 0),
       (if \<not> R 2 then 36 - d 2 else 0),
       (if \<not> R 5 then 36 - d 5 else 0),
       (if R 2 then 36 - d 2 else 0),
       (if R 5 then 36 - d 5 else 0),
       0,
       36,
       36,
       36,
       36]"
  proof -
    have "map uint (pixels (fst (spread_all r ([4, 8, 12, 5, 9] @ [13]) g))) =
      map (\<lambda>i. if int i = int 13 - 4 + (if R 5 then 1 else - 1)
                 then max ([0,
                      0,
                      0,
                      0,
                      (if \<not> R 4 then max (((if R 2 then 36 - d 2 else 0)) - d 4) 0 else 0),
                      0,
                      (if R 4 then max (((if R 2 then 36 - d 2 else 0)) - d 4) 0 else 0),
                      (if \<not> R 2 then 36 - d 2 else 0),
                      0,
                      (if R 2 then 36 - d 2 else 0),
                      0,
                      0,
                      36,
                      36,
                      36,
                      36] ! 13 - d 5) 0
                 else [0,
                      0,
                      0,
                      0,
                      (if \<not> R 4 then max (((if R 2 then 36 - d 2 else 0)) - d 4) 0 else 0),
                      0,
                      (if R 4 then max (((if R 2 then 36 - d 2 else 0)) - d 4) 0 else 0),
                      (if \<not> R 2 then 36 - d 2 else 0),
                      0,
                      (if R 2 then 36 - d 2 else 0),
                      0,
                      0,
                      36,
                      36,
                      36,
                      36] ! i) [0, 1, 2, 3, 4, 5, 6, 7, 8, 9, 10, 11, 12, 13, 14, 15]"
      using w len g s5 by (rule spread_all_snoc_16) (simp_all add: d R)
    then show ?thesis
      using d0 [of 5] d2 [of 5] by (cases "R 5") simp_all
  qed
  have s7: "map uint (pixels (fst (spread_all r [4, 8, 12, 5, 9, 13, 6] g))) =
      [0,
       (if \<not> R 6 then max (((if R 4 then max (((if R 2 then 36 - d 2 else 0)) - d 4) 0 else 0)) - d 6) 0 else 0),
       0,
       (if R 6 then max (((if R 4 then max (((if R 2 then 36 - d 2 else 0)) - d 4) 0 else 0)) - d 6) 0 else 0),
       (if \<not> R 4 then max (((if R 2 then 36 - d 2 else 0)) - d 4) 0 else 0),
       0,
       (if R 4 then max (((if R 2 then 36 - d 2 else 0)) - d 4) 0 else 0),
       (if \<not> R 2 then 36 - d 2 else 0),
       (if \<not> R 5 then 36 - d 5 else 0),
       (if R 2 then 36 - d 2 else 0),
       (if R 5 then 36 - d 5 else 0),
       0,
       36,
       36,
       36,
       36]"
  proof -
    have "map uint (pixels (fst (spread_all r ([4, 8, 12, 5, 9, 13] @ [6]) g))) =
      map (\<lambda>i. if int i = int 6 - 4 + (if R 6 then 1 else - 1)
                 then max ([0,
                      0,
                      0,
                      0,
                      (if \<not> R 4 then max (((if R 2 then 36 - d 2 else 0)) - d 4) 0 else 0),
                      0,
                      (if R 4 then max (((if R 2 then 36 - d 2 else 0)) - d 4) 0 else 0),
                      (if \<not> R 2 then 36 - d 2 else 0),
                      (if \<not> R 5 then 36 - d 5 else 0),
                      (if R 2 then 36 - d 2 else 0),
                      (if R 5 then 36 - d 5 else 0),
                      0,
                      36,
                      36,
                      36,
                      36] ! 6 - d 6) 0
                 else [0,
                      0,
                      0,
                      0,
                      (if \<not> R 4 then max (((if R 2 then 36 - d 2 else 0)) - d 4) 0 else 0),
                      0,
                      (if R 4 then max (((if R 2 then 36 - d 2 else 0)) - d 4) 0 else 0),
                      (if \<not> R 2 then 36 - d 2 else 0),
                      (if \<not> R 5 then 36 - d 5 else 0),
                      (if R 2 then 36 - d 2 else 0),
                      (if R 5 then 36 - d 5 else 0),
                      0,
                      36,
                      36,
                      36,
                      36] ! i) [0, 1, 2, 3, 4, 5, 6, 7, 8, 9, 10, 11, 12, 13, 14, 15]"
      using w len g s6 by (rule spread_all_snoc_16) (simp_all add: d R)
    then show ?thesis
      using d0 [of 6] d2 [of 6] by (cases "R 6") simp_all
  qed
  have s8: "map uint (pixels (fst (spread_all r [4, 8, 12, 5, 9, 13, 6, 10] g))) =
      [0,
       (if \<not> R 6 then max (((if R 4 then max (((if R 2 then 36 - d 2 else 0)) - d 4) 0 else 0)) - d 6) 0 else 0),
       0,
       (if R 6 then max (((if R 4 then max (((if R 2 then 36 - d 2 else 0)) - d 4) 0 else 0)) - d 6) 0 else 0),
       (if \<not> R 4 then max (((if R 2 then 36 - d 2 else 0)) - d 4) 0 else 0),
       (if \<not> R 7 then max (((if R 5 then 36 - d 5 else 0)) - d 7) 0 else 0),
       (if R 4 then max (((if R 2 then 36 - d 2 else 0)) - d 4) 0 else 0),
       (if R 7 then max (((if R 5 then 36 - d 5 else 0)) - d 7) 0 else (if \<not> R 2 then 36 - d 2 else 0)),
       (if \<not> R 5 then 36 - d 5 else 0),
       (if R 2 then 36 - d 2 else 0),
       (if R 5 then 36 - d 5 else 0),
       0,
       36,
       36,
       36,
       36]"
  proof -
    have "map uint (pixels (fst (spread_all r ([4, 8, 12, 5, 9, 13, 6] @ [10]) g))) =
      map (\<lambda>i. if int i = int 10 - 4 + (if R 7 then 1 else - 1)
                 then max ([0,
                      (if \<not> R 6 then max (((if R 4 then max (((if R 2 then 36 - d 2 else 0)) - d 4) 0 else 0)) - d 6) 0 else 0),
                      0,
                      (if R 6 then max (((if R 4 then max (((if R 2 then 36 - d 2 else 0)) - d 4) 0 else 0)) - d 6) 0 else 0),
                      (if \<not> R 4 then max (((if R 2 then 36 - d 2 else 0)) - d 4) 0 else 0),
                      0,
                      (if R 4 then max (((if R 2 then 36 - d 2 else 0)) - d 4) 0 else 0),
                      (if \<not> R 2 then 36 - d 2 else 0),
                      (if \<not> R 5 then 36 - d 5 else 0),
                      (if R 2 then 36 - d 2 else 0),
                      (if R 5 then 36 - d 5 else 0),
                      0,
                      36,
                      36,
                      36,
                      36] ! 10 - d 7) 0
                 else [0,
                      (if \<not> R 6 then max (((if R 4 then max (((if R 2 then 36 - d 2 else 0)) - d 4) 0 else 0)) - d 6) 0 else 0),
                      0,
                      (if R 6 then max (((if R 4 then max (((if R 2 then 36 - d 2 else 0)) - d 4) 0 else 0)) - d 6) 0 else 0),
                      (if \<not> R 4 then max (((if R 2 then 36 - d 2 else 0)) - d 4) 0 else 0),
                      0,
                      (if R 4 then max (((if R 2 then 36 - d 2 else 0)) - d 4) 0 else 0),
                      (if \<not> R 2 then 36 - d 2 else 0),
                      (if \<not> R 5 then 36 - d 5 else 0),
                      (if R 2 then 36 - d 2 else 0),
                      (if R 5 then 36 - d 5 else 0),
                      0,
                      36,
                      36,
                      36,
                      36] ! i) [0, 1, 2, 3, 4, 5, 6, 7, 8, 9, 10, 11, 12, 13, 14, 15]"
      using w len g s7 by (rule spread_all_snoc_16) (simp_all add: d R)
    then show ?thesis
      using d0 [of 7] d2 [of 7] by (cases "R 7") simp_all
  qed
  have s9: "map uint (pixels (fst (spread_all r [4, 8, 12, 5, 9, 13, 6, 10, 14] g))) =
      [0,
       (if \<not> R 6 then max (((if R 4 then max (((if R 2 then 36 - d 2 else 0)) - d 4) 0 else 0)) - d 6) 0 else 0),
       0,
       (if R 6 then max (((if R 4 then max (((if R 2 then 36 - d 2 else 0)) - d 4) 0 else 0)) - d 6) 0 else 0),
       (if \<not> R 4 then max (((if R 2 then 36 - d 2 else 0)) - d 4) 0 else 0),
       (if \<not> R 7 then max (((if R 5 then 36 - d 5 else 0)) - d 7) 0 else 0),
       (if R 4 then max (((if R 2 then 36 - d 2 else 0)) - d 4) 0 else 0),
       (if R 7 then max (((if R 5 then 36 - d 5 else 0)) - d 7) 0 else (if \<not> R 2 then 36 - d 2 else 0)),
       (if \<not> R 5 then 36 - d 5 else 0),
       (if \<not> R 8 then 36 - d 8 else (if R 2 then 36 - d 2 else 0)),
       (if R 5 then 36 - d 5 else 0),
       (if R 8 then 36 - d 8 else 0),
       36,
       36,
       36,
       36]"
  proof -
    have "map uint (pixels (fst (spread_all r ([4, 8, 12, 5, 9, 13, 6, 10] @ [14]) g))) =
      map (\<lambda>i. if int i = int 14 - 4 + (if R 8 then 1 else - 1)
                 then max ([0,
                      (if \<not> R 6 then max (((if R 4 then max (((if R 2 then 36 - d 2 else 0)) - d 4) 0 else 0)) - d 6) 0 else 0),
                      0,
                      (if R 6 then max (((if R 4 then max (((if R 2 then 36 - d 2 else 0)) - d 4) 0 else 0)) - d 6) 0 else 0),
                      (if \<not> R 4 then max (((if R 2 then 36 - d 2 else 0)) - d 4) 0 else 0),
                      (if \<not> R 7 then max (((if R 5 then 36 - d 5 else 0)) - d 7) 0 else 0),
                      (if R 4 then max (((if R 2 then 36 - d 2 else 0)) - d 4) 0 else 0),
                      (if R 7 then max (((if R 5 then 36 - d 5 else 0)) - d 7) 0 else (if \<not> R 2 then 36 - d 2 else 0)),
                      (if \<not> R 5 then 36 - d 5 else 0),
                      (if R 2 then 36 - d 2 else 0),
                      (if R 5 then 36 - d 5 else 0),
                      0,
                      36,
                      36,
                      36,
                      36] ! 14 - d 8) 0
                 else [0,
                      (if \<not> R 6 then max (((if R 4 then max (((if R 2 then 36 - d 2 else 0)) - d 4) 0 else 0)) - d 6) 0 else 0),
                      0,
                      (if R 6 then max (((if R 4 then max (((if R 2 then 36 - d 2 else 0)) - d 4) 0 else 0)) - d 6) 0 else 0),
                      (if \<not> R 4 then max (((if R 2 then 36 - d 2 else 0)) - d 4) 0 else 0),
                      (if \<not> R 7 then max (((if R 5 then 36 - d 5 else 0)) - d 7) 0 else 0),
                      (if R 4 then max (((if R 2 then 36 - d 2 else 0)) - d 4) 0 else 0),
                      (if R 7 then max (((if R 5 then 36 - d 5 else 0)) - d 7) 0 else (if \<not> R 2 then 36 - d 2 else 0)),
                      (if \<not> R 5 then 36 - d 5 else 0),
                      (if R 2 then 36 - d 2 else 0),
                      (if R 5 then 36 - d 5 else 0),
                      0,
                      36,
                      36,
                      36,
                      36] ! i) [0, 1, 2, 3, 4, 5, 6, 7, 8, 9, 10, 11, 12, 13, 14, 15]"
      using w len g s8 by (rule spread_all_snoc_16) (simp_all add: d R)
    then show ?thesis
      using d0 [of 8] d2 [of 8] by (cases "R 8") simp_all
  qed
  have s10: "map uint (pixels (fst (spread_all r [4, 8, 12, 5, 9, 13, 6, 10, 14, 7] g))) =
      [0,
       (if \<not> R 6 then max (((if R 4 then max (((if R 2 then 36 - d 2 else 0)) - d 4) 0 else 0)) - d 6) 0 else 0),
       (if \<not> R 9 then max (((if R 7 then max (((if R 5 then 36 - d 5 else 0)) - d 7) 0 else (if \<not> R 2 then 36 - d 2 else 0))) - d 9) 0 else 0),
       (if R 6 then max (((if R 4 then max (((if R 2 then 36 - d 2 else 0)) - d 4) 0 else 0)) - d 6) 0 else 0),
       (if R 9 then max (((if R 7 then max (((if R 5 then 36 - d 5 else 0)) - d 7) 0 else (if \<not> R 2 then 36 - d 2 else 0))) - d 9) 0 else (if \<not> R 4 then max (((if R 2 then 36 - d 2 else 0)) - d 4) 0 else 0)),
       (if \<not> R 7 then max (((if R 5 then 36 - d 5 else 0)) - d 7) 0 else 0),
       (if R 4 then max (((if R 2 then 36 - d 2 else 0)) - d 4) 0 else 0),
       (if R 7 then max (((if R 5 then 36 - d 5 else 0)) - d 7) 0 else (if \<not> R 2 then 36 - d 2 else 0)),
       (if \<not> R 5 then 36 - d 5 else 0),
       (if \<not> R 8 then 36 - d 8 else (if R 2 then 36 - d 2 else 0)),
       (if R 5 then 36 - d 5 else 0),
       (if R 8 then 36 - d 8 else 0),
       36,
       36,
       36,
       36]"
  proof -
    have "map uint (pixels (fst (spread_all r ([4, 8, 12, 5, 9, 13, 6, 10, 14] @ [7]) g))) =
      map (\<lambda>i. if int i = int 7 - 4 + (if R 9 then 1 else - 1)
                 then max ([0,
                      (if \<not> R 6 then max (((if R 4 then max (((if R 2 then 36 - d 2 else 0)) - d 4) 0 else 0)) - d 6) 0 else 0),
                      0,
                      (if R 6 then max (((if R 4 then max (((if R 2 then 36 - d 2 else 0)) - d 4) 0 else 0)) - d 6) 0 else 0),
                      (if \<not> R 4 then max (((if R 2 then 36 - d 2 else 0)) - d 4) 0 else 0),
                      (if \<not> R 7 then max (((if R 5 then 36 - d 5 else 0)) - d 7) 0 else 0),
                      (if R 4 then max (((if R 2 then 36 - d 2 else 0)) - d 4) 0 else 0),
                      (if R 7 then max (((if R 5 then 36 - d 5 else 0)) - d 7) 0 else (if \<not> R 2 then 36 - d 2 else 0)),
                      (if \<not> R 5 then 36 - d 5 else 0),
                      (if \<not> R 8 then 36 - d 8 else (if R 2 then 36 - d 2 else 0)),
                      (if R 5 then 36 - d 5 else 0),
                      (if R 8 then 36 - d 8 else 0),
                      36,
                      36,
                      36,
                      36] ! 7 - d 9) 0
                 else [0,
                      (if \<not> R 6 then max (((if R 4 then max (((if R 2 then 36 - d 2 else 0)) - d 4) 0 else 0)) - d 6) 0 else 0),
                      0,
                      (if R 6 then max (((if R 4 then max (((if R 2 then 36 - d 2 else 0)) - d 4) 0 else 0)) - d 6) 0 else 0),
                      (if \<not> R 4 then max (((if R 2 then 36 - d 2 else 0)) - d 4) 0 else 0),
                      (if \<not> R 7 then max (((if R 5 then 36 - d 5 else 0)) - d 7) 0 else 0),
                      (if R 4 then max (((if R 2 then 36 - d 2 else 0)) - d 4) 0 else 0),
                      (if R 7 then max (((if R 5 then 36 - d 5 else 0)) - d 7) 0 else (if \<not> R 2 then 36 - d 2 else 0)),
                      (if \<not> R 5 then 36 - d 5 else 0),
                      (if \<not> R 8 then 36 - d 8 else (if R 2 then 36 - d 2 else 0)),
                      (if R 5 then 36 - d 5 else 0),
                      (if R 8 then 36 - d 8 else 0),
                      36,
                      36,
                      36,
                      36] ! i) [0, 1, 2, 3, 4, 5, 6, 7, 8, 9, 10, 11, 12, 13, 14, 15]"
      using w len g s9 by (rule spread_all_snoc_16) (simp_all add: d R)
    then show ?thesis
      using d0 [of 9] d2 [of 9] by (cases "R 9") simp_all
  qed
  have s11: "map uint (pixels (fst (spread_all r [4, 8, 12, 5, 9, 13, 6, 10, 14, 7, 11] g))) =
      [0,
       (if \<not> R 6 then max (((if R 4 then max (((if R 2 then 36 - d 2 else 0)) - d 4) 0 else 0)) - d 6) 0 else 0),
       (if \<not> R 9 then max (((if R 7 then max (((if R 5 then 36 - d 5 else 0)) - d 7) 0 else (if \<not> R 2 then 36 - d 2 else 0))) - d 9) 0 else 0),
       (if R 6 then max (((if R 4 then max (((if R 2 then 36 - d 2 else 0)) - d 4) 0 else 0)) - d 6) 0 else 0),
       (if R 9 then max (((if R 7 then max (((if R 5 then 36 - d 5 else 0)) - d 7) 0 else (if \<not> R 2 then 36 - d 2 else 0))) - d 9) 0 else (if \<not> R 4 then max (((if R 2 then 36 - d 2 else 0)) - d 4) 0 else 0)),
       (if \<not> R 7 then max (((if R 5 then 36 - d 5 else 0)) - d 7) 0 else 0),
       (if \<not> R 10 then max (((if R 8 then 36 - d 8 else 0)) - d 10) 0 else (if R 4 then max (((if R 2 then 36 - d 2 else 0)) - d 4) 0 else 0)),
       (if R 7 then max (((if R 5 then 36 - d 5 else 0)) - d 7) 0 else (if \<not> R 2 then 36 - d 2 else 0)),
       (if R 10 then max (((if R 8 then 36 - d 8 else 0)) - d 10) 0 else (if \<not> R 5 then 36 - d 5 else 0)),
       (if \<not> R 8 then 36 - d 8 else (if R 2 then 36 - d 2 else 0)),
       (if R 5 then 36 - d 5 else 0),
       (if R 8 then 36 - d 8 else 0),
       36,
       36,
       36,
       36]"
  proof -
    have "map uint (pixels (fst (spread_all r ([4, 8, 12, 5, 9, 13, 6, 10, 14, 7] @ [11]) g))) =
      map (\<lambda>i. if int i = int 11 - 4 + (if R 10 then 1 else - 1)
                 then max ([0,
                      (if \<not> R 6 then max (((if R 4 then max (((if R 2 then 36 - d 2 else 0)) - d 4) 0 else 0)) - d 6) 0 else 0),
                      (if \<not> R 9 then max (((if R 7 then max (((if R 5 then 36 - d 5 else 0)) - d 7) 0 else (if \<not> R 2 then 36 - d 2 else 0))) - d 9) 0 else 0),
                      (if R 6 then max (((if R 4 then max (((if R 2 then 36 - d 2 else 0)) - d 4) 0 else 0)) - d 6) 0 else 0),
                      (if R 9 then max (((if R 7 then max (((if R 5 then 36 - d 5 else 0)) - d 7) 0 else (if \<not> R 2 then 36 - d 2 else 0))) - d 9) 0 else (if \<not> R 4 then max (((if R 2 then 36 - d 2 else 0)) - d 4) 0 else 0)),
                      (if \<not> R 7 then max (((if R 5 then 36 - d 5 else 0)) - d 7) 0 else 0),
                      (if R 4 then max (((if R 2 then 36 - d 2 else 0)) - d 4) 0 else 0),
                      (if R 7 then max (((if R 5 then 36 - d 5 else 0)) - d 7) 0 else (if \<not> R 2 then 36 - d 2 else 0)),
                      (if \<not> R 5 then 36 - d 5 else 0),
                      (if \<not> R 8 then 36 - d 8 else (if R 2 then 36 - d 2 else 0)),
                      (if R 5 then 36 - d 5 else 0),
                      (if R 8 then 36 - d 8 else 0),
                      36,
                      36,
                      36,
                      36] ! 11 - d 10) 0
                 else [0,
                      (if \<not> R 6 then max (((if R 4 then max (((if R 2 then 36 - d 2 else 0)) - d 4) 0 else 0)) - d 6) 0 else 0),
                      (if \<not> R 9 then max (((if R 7 then max (((if R 5 then 36 - d 5 else 0)) - d 7) 0 else (if \<not> R 2 then 36 - d 2 else 0))) - d 9) 0 else 0),
                      (if R 6 then max (((if R 4 then max (((if R 2 then 36 - d 2 else 0)) - d 4) 0 else 0)) - d 6) 0 else 0),
                      (if R 9 then max (((if R 7 then max (((if R 5 then 36 - d 5 else 0)) - d 7) 0 else (if \<not> R 2 then 36 - d 2 else 0))) - d 9) 0 else (if \<not> R 4 then max (((if R 2 then 36 - d 2 else 0)) - d 4) 0 else 0)),
                      (if \<not> R 7 then max (((if R 5 then 36 - d 5 else 0)) - d 7) 0 else 0),
                      (if R 4 then max (((if R 2 then 36 - d 2 else 0)) - d 4) 0 else 0),
                      (if R 7 then max (((if R 5 then 36 - d 5 else 0)) - d 7) 0 else (if \<not> R 2 then 36 - d 2 else 0)),
                      (if \<not> R 5 then 36 - d 5 else 0),
                      (if \<not> R 8 then 36 - d 8 else (if R 2 then 36 - d 2 else 0)),
                      (if R 5 then 36 - d 5 else 0),
                      (if R 8 then 36 - d 8 else 0),
                      36,
                      36,
                      36,
                      36] ! i) [0, 1, 2, 3, 4, 5, 6, 7, 8, 9, 10, 11, 12, 13, 14, 15]"
      using w len g s10 by (rule spread_all_snoc_16) (simp_all add: d R)
    then show ?thesis
      using d0 [of 10] d2 [of 10] by (cases "R 10") simp_all
  qed
  have s12: "map uint (pixels (fst (spread_all r [4, 8, 12, 5, 9, 13, 6, 10, 14, 7, 11, 15] g))) =
      [0,
       (if \<not> R 6 then max (((if R 4 then max (((if R 2 then 36 - d 2 else 0)) - d 4) 0 else 0)) - d 6) 0 else 0),
       (if \<not> R 9 then max (((if R 7 then max (((if R 5 then 36 - d 5 else 0)) - d 7) 0 else (if \<not> R 2 then 36 - d 2 else 0))) - d 9) 0 else 0),
       (if R 6 then max (((if R 4 then max (((if R 2 then 36 - d 2 else 0)) - d 4) 0 else 0)) - d 6) 0 else 0),
       (if R 9 then max (((if R 7 then max (((if R 5 then 36 - d 5 else 0)) - d 7) 0 else (if \<not> R 2 then 36 - d 2 else 0))) - d 9) 0 else (if \<not> R 4 then max (((if R 2 then 36 - d 2 else 0)) - d 4) 0 else 0)),
       (if \<not> R 7 then max (((if R 5 then 36 - d 5 else 0)) - d 7) 0 else 0),
       (if \<not> R 10 then max (((if R 8 then 36 - d 8 else 0)) - d 10) 0 else (if R 4 then max (((if R 2 then 36 - d 2 else 0)) - d 4) 0 else 0)),
       (if R 7 then max (((if R 5 then 36 - d 5 else 0)) - d 7) 0 else (if \<not> R 2 then 36 - d 2 else 0)),
       (if R 10 then max (((if R 8 then 36 - d 8 else 0)) - d 10) 0 else (if \<not> R 5 then 36 - d 5 else 0)),
       (if \<not> R 8 then 36 - d 8 else (if R 2 then 36 - d 2 else 0)),
       (if \<not> R 11 then 36 - d 11 else (if R 5 then 36 - d 5 else 0)),
       (if R 8 then 36 - d 8 else 0),
       (if R 11 then 36 - d 11 else 36),
       36,
       36,
       36]"
  proof -
    have "map uint (pixels (fst (spread_all r ([4, 8, 12, 5, 9, 13, 6, 10, 14, 7, 11] @ [15]) g))) =
      map (\<lambda>i. if int i = int 15 - 4 + (if R 11 then 1 else - 1)
                 then max ([0,
                      (if \<not> R 6 then max (((if R 4 then max (((if R 2 then 36 - d 2 else 0)) - d 4) 0 else 0)) - d 6) 0 else 0),
                      (if \<not> R 9 then max (((if R 7 then max (((if R 5 then 36 - d 5 else 0)) - d 7) 0 else (if \<not> R 2 then 36 - d 2 else 0))) - d 9) 0 else 0),
                      (if R 6 then max (((if R 4 then max (((if R 2 then 36 - d 2 else 0)) - d 4) 0 else 0)) - d 6) 0 else 0),
                      (if R 9 then max (((if R 7 then max (((if R 5 then 36 - d 5 else 0)) - d 7) 0 else (if \<not> R 2 then 36 - d 2 else 0))) - d 9) 0 else (if \<not> R 4 then max (((if R 2 then 36 - d 2 else 0)) - d 4) 0 else 0)),
                      (if \<not> R 7 then max (((if R 5 then 36 - d 5 else 0)) - d 7) 0 else 0),
                      (if \<not> R 10 then max (((if R 8 then 36 - d 8 else 0)) - d 10) 0 else (if R 4 then max (((if R 2 then 36 - d 2 else 0)) - d 4) 0 else 0)),
                      (if R 7 then max (((if R 5 then 36 - d 5 else 0)) - d 7) 0 else (if \<not> R 2 then 36 - d 2 else 0)),
                      (if R 10 then max (((if R 8 then 36 - d 8 else 0)) - d 10) 0 else (if \<not> R 5 then 36 - d 5 else 0)),
                      (if \<not> R 8 then 36 - d 8 else (if R 2 then 36 - d 2 else 0)),
                      (if R 5 then 36 - d 5 else 0),
                      (if R 8 then 36 - d 8 else 0),
                      36,
                      36,
                      36,
                      36] ! 15 - d 11) 0
                 else [0,
                      (if \<not> R 6 then max (((if R 4 then max (((if R 2 then 36 - d 2 else 0)) - d 4) 0 else 0)) - d 6) 0 else 0),
                      (if \<not> R 9 then max (((if R 7 then max (((if R 5 then 36 - d 5 else 0)) - d 7) 0 else (if \<not> R 2 then 36 - d 2 else 0))) - d 9) 0 else 0),
                      (if R 6 then max (((if R 4 then max (((if R 2 then 36 - d 2 else 0)) - d 4) 0 else 0)) - d 6) 0 else 0),
                      (if R 9 then max (((if R 7 then max (((if R 5 then 36 - d 5 else 0)) - d 7) 0 else (if \<not> R 2 then 36 - d 2 else 0))) - d 9) 0 else (if \<not> R 4 then max (((if R 2 then 36 - d 2 else 0)) - d 4) 0 else 0)),
                      (if \<not> R 7 then max (((if R 5 then 36 - d 5 else 0)) - d 7) 0 else 0),
                      (if \<not> R 10 then max (((if R 8 then 36 - d 8 else 0)) - d 10) 0 else (if R 4 then max (((if R 2 then 36 - d 2 else 0)) - d 4) 0 else 0)),
                      (if R 7 then max (((if R 5 then 36 - d 5 else 0)) - d 7) 0 else (if \<not> R 2 then 36 - d 2 else 0)),
                      (if R 10 then max (((if R 8 then 36 - d 8 else 0)) - d 10) 0 else (if \<not> R 5 then 36 - d 5 else 0)),
                      (if \<not> R 8 then 36 - d 8 else (if R 2 then 36 - d 2 else 0)),
                      (if R 5 then 36 - d 5 else 0),
                      (if R 8 then 36 - d 8 else 0),
                      36,
                      36,
                      36,
                      36] ! i) [0, 1, 2, 3, 4, 5, 6, 7, 8, 9, 10, 11, 12, 13, 14, 15]"
      using w len g s11 by (rule spread_all_snoc_16) (simp_all add: d R)
    then show ?thesis
      using d0 [of 11] d2 [of 11] by (cases "R 11") simp_all
  qed
  show ?thesis
    unfolding update_spread_all w h sources_4_4 by (rule s12)
qed

text \<open>
  C6, as amended. On a canvas of 4 by 4 pixels at scale 1 the grid after
  \<^verbatim>\<open>reset()\<close> is three rows of 0 above a row of 36. One \<^verbatim>\<open>update()\<close> then
  applies the spread rule to the twelve sources 4, 8, 12, 5, 9, 13, 6, 10, 14, 7, 11, 15
  in this order and takes 24 draws. For every choice of the draws the grid it leaves is
  the one given below, cell by cell, where \<open>d j\<close> is the decay of the \<open>j\<close>-th source
  (0, 1 or 2), \<open>R j\<close> says that its direction is +1, \<open>h f\<close> is the heat that the source
  \<open>f\<close> holds when its turn comes and \<open>w f\<close> the heat it passes on. In particular the
  cells of row 3 in the columns 1 to 3 are still 36 and the cell of row 3 in column 0 is
  36 reduced by 0 to 2; the cells of row 2 in the columns 1 to 3 hold 0 or 36 reduced by
  0 to 2; the cell of row 0 in column 0 is still 0; the cell of row 2 in column 0 and
  the cells of row 1 in the columns 1 to 3 hold 0 or a value from 32 to 36; the cell of
  row 1 in column 0 and the cells of row 0 in the columns 1 to 3 hold 0 or a value from
  30 to 36.
\<close>

theorem end_to_end_4x4:
  assumes "scale r = 1" and "canvas r = \<lparr>cwidth = 4, cheight = 4\<rparr>" and "double_rng g"
  shows "pixels (state_of (reset r)) = [0, 0, 0, 0, 0, 0, 0, 0, 0, 0, 0, 0, 36, 36, 36, 36] \<and>
    update (state_of (reset r)) g =
      spread_all (state_of (reset r)) [4, 8, 12, 5, 9, 13, 6, 10, 14, 7, 11, 15] g \<and>
    snd (update (state_of (reset r)) g) = (\<lambda>n. g (n + 24)) \<and>
    (let d = (\<lambda>j. \<lfloor>fmul (g (2 * j)) 3\<rfloor>);
         R = (\<lambda>j. g (2 * j + 1) > 1 / 2);
         h9 = (if R 2 then 36 - d 2 else 0);
         w9 = max (h9 - d 4) 0;
         h6 = (if R 4 then w9 else 0);
         w6 = max (h6 - d 6) 0;
         h10 = (if R 5 then 36 - d 5 else 0);
         w10 = max (h10 - d 7) 0;
         h7 = (if R 7 then w10 else (if \<not> R 2 then 36 - d 2 else 0));
         w7 = max (h7 - d 9) 0;
         h11 = (if R 8 then 36 - d 8 else 0);
         w11 = max (h11 - d 10) 0
     in (\<forall>j. d j \<in> {0, 1, 2}) \<and>
        map uint (pixels (fst (update (state_of (reset r)) g))) =
          [0,
           (if \<not> R 6 then w6 else 0),
           (if \<not> R 9 then w7 else 0),
           (if R 6 then w6 else 0),
           (if R 9 then w7 else (if \<not> R 4 then w9 else 0)),
           (if \<not> R 7 then w10 else 0),
           (if \<not> R 10 then w11 else (if R 4 then w9 else 0)),
           h7,
           (if R 10 then w11 else (if \<not> R 5 then 36 - d 5 else 0)),
           (if \<not> R 8 then 36 - d 8 else h9),
           (if \<not> R 11 then 36 - d 11 else h10),
           h11,
           (if R 11 then 36 - d 11 else 36),
           36,
           36,
           36]) \<and>
    (let c = (\<lambda>i. uint (pixels (fst (update (state_of (reset r)) g)) ! i))
     in c 0 = 0 \<and>
        (\<forall>i\<in>{1, 2, 3, 4}. c i = 0 \<or> 30 \<le> c i \<and> c i \<le> 36) \<and>
        (\<forall>i\<in>{5, 6, 7, 8}. c i = 0 \<or> 32 \<le> c i \<and> c i \<le> 36) \<and>
        (\<forall>i\<in>{9, 10, 11}. c i \<in> {0, 34, 35, 36}) \<and>
        c 12 \<in> {34, 35, 36} \<and>
        (\<forall>i\<in>{13, 14, 15}. c i = 36))"
proof -
  let ?r1 = "state_of (reset r)"
  let ?r2 = "fst (update ?r1 g)"
  define d where "d = (\<lambda>j. \<lfloor>fmul (g (2 * j)) 3\<rfloor>)"
  define R where "R = (\<lambda>j. g (2 * j + 1) > 1 / 2)"
  define h9 where "h9 = (if R 2 then 36 - d 2 else 0)"
  define w9 where "w9 = max (h9 - d 4) 0"
  define h6 where "h6 = (if R 4 then w9 else 0)"
  define w6 where "w6 = max (h6 - d 6) 0"
  define h10 where "h10 = (if R 5 then 36 - d 5 else 0)"
  define w10 where "w10 = max (h10 - d 7) 0"
  define h7 where "h7 = (if R 7 then w10 else (if \<not> R 2 then 36 - d 2 else 0))"
  define w7 where "w7 = max (h7 - d 9) 0"
  define h11 where "h11 = (if R 8 then 36 - d 8 else 0)"
  define w11 where "w11 = max (h11 - d 10) 0"
  have dims: "width r = 4" "height r = 4"
    using assms(1,2) by (rule dims_4_4)+
  have px1: "pixels ?r1 = [0, 0, 0, 0, 0, 0, 0, 0, 0, 0, 0, 0, 36, 36, 36, 36]"
    using reset_pixels_cong [of r example_renderer] dims
    by (simp add: example_renderer_dims example_reset_pixels)
  have d1: "width ?r1 = 4" "height ?r1 = 4"
    by (simp_all add: dims reset_dims)
  have ints: "map uint (pixels ?r1) = [0, 0, 0, 0, 0, 0, 0, 0, 0, 0, 0, 0, 36, 36, 36, 36]"
    by (simp add: px1)
  have upd: "update ?r1 g = spread_all ?r1 [4, 8, 12, 5, 9, 13, 6, 10, 14, 7, 11, 15] g"
    by (simp add: update_spread_all d1 sources_4_4)
  have rest: "snd (update ?r1 g) = (\<lambda>n. g (n + 24))"
    unfolding upd by (subst spread_all_rng) (simp_all add: d1)
  have range: "d j \<in> {0, 1, 2}" for j
    unfolding d_def using double_rng_bounds [OF assms(3), of "2 * j"] by (rule floor_fmul3_range)
  have d0: "0 \<le> d j" and d2: "d j \<le> 2" for j
    using range [of j] by auto
  have cells: "map uint (pixels ?r2) =
      [0,
       (if \<not> R 6 then w6 else 0),
       (if \<not> R 9 then w7 else 0),
       (if R 6 then w6 else 0),
       (if R 9 then w7 else (if \<not> R 4 then w9 else 0)),
       (if \<not> R 7 then w10 else 0),
       (if \<not> R 10 then w11 else (if R 4 then w9 else 0)),
       h7,
       (if R 10 then w11 else (if \<not> R 5 then 36 - d 5 else 0)),
       (if \<not> R 8 then 36 - d 8 else h9),
       (if \<not> R 11 then 36 - d 11 else h10),
       h11,
       (if R 11 then 36 - d 11 else 36),
       36,
       36,
       36]"
    unfolding w11_def h11_def w7_def h7_def w10_def h10_def w6_def h6_def w9_def h9_def
    by (rule update_4x4_cells [OF d1 ints assms(3)]) (simp_all add: d_def R_def)
  have c: "uint (pixels ?r2 ! i) =
      [0,
       (if \<not> R 6 then w6 else 0),
       (if \<not> R 9 then w7 else 0),
       (if R 6 then w6 else 0),
       (if R 9 then w7 else (if \<not> R 4 then w9 else 0)),
       (if \<not> R 7 then w10 else 0),
       (if \<not> R 10 then w11 else (if R 4 then w9 else 0)),
       h7,
       (if R 10 then w11 else (if \<not> R 5 then 36 - d 5 else 0)),
       (if \<not> R 8 then 36 - d 8 else h9),
       (if \<not> R 11 then 36 - d 11 else h10),
       h11,
       (if R 11 then 36 - d 11 else 36),
       36,
       36,
       36] ! i" if "i < 16" for i
    using that arg_cong [OF cells, of "\<lambda>xs. xs ! i"] by (simp add: px1)
  have b_h9: "h9 = 0 \<or> 34 \<le> h9 \<and> h9 \<le> 36"
    unfolding h9_def using d0 [of 2] d2 [of 2] by (auto simp: max_def)
  have b_w9: "w9 = 0 \<or> 32 \<le> w9 \<and> w9 \<le> 36"
    unfolding w9_def using b_h9 d0 [of 4] d2 [of 4] by (auto simp: max_def)
  have b_h6: "h6 = 0 \<or> 32 \<le> h6 \<and> h6 \<le> 36"
    unfolding h6_def using b_w9 by (auto simp: max_def)
  have b_w6: "w6 = 0 \<or> 30 \<le> w6 \<and> w6 \<le> 36"
    unfolding w6_def using b_h6 d0 [of 6] d2 [of 6] by (auto simp: max_def)
  have b_h10: "h10 = 0 \<or> 34 \<le> h10 \<and> h10 \<le> 36"
    unfolding h10_def using d0 [of 5] d2 [of 5] by (auto simp: max_def)
  have b_w10: "w10 = 0 \<or> 32 \<le> w10 \<and> w10 \<le> 36"
    unfolding w10_def using b_h10 d0 [of 7] d2 [of 7] by (auto simp: max_def)
  have b_h7: "h7 = 0 \<or> 32 \<le> h7 \<and> h7 \<le> 36"
    unfolding h7_def using b_w10 d0 [of 2] d2 [of 2] by (auto simp: max_def)
  have b_w7: "w7 = 0 \<or> 30 \<le> w7 \<and> w7 \<le> 36"
    unfolding w7_def using b_h7 d0 [of 9] d2 [of 9] by (auto simp: max_def)
  have b_h11: "h11 = 0 \<or> 34 \<le> h11 \<and> h11 \<le> 36"
    unfolding h11_def using d0 [of 8] d2 [of 8] by (auto simp: max_def)
  have b_w11: "w11 = 0 \<or> 32 \<le> w11 \<and> w11 \<le> 36"
    unfolding w11_def using b_h11 d0 [of 10] d2 [of 10] by (auto simp: max_def)
  have c0: "uint (pixels ?r2 ! 0) = 0"
    using c [of 0] by simp
  have row01: "\<forall>i\<in>{1, 2, 3, 4}. uint (pixels ?r2 ! i) = 0 \<or>
      30 \<le> uint (pixels ?r2 ! i) \<and> uint (pixels ?r2 ! i) \<le> 36"
    using c [of 1] c [of 2] c [of 3] c [of 4] b_w6 b_w7 b_w9 by auto
  have row12: "\<forall>i\<in>{5, 6, 7, 8}. uint (pixels ?r2 ! i) = 0 \<or>
      32 \<le> uint (pixels ?r2 ! i) \<and> uint (pixels ?r2 ! i) \<le> 36"
    using c [of 5] c [of 6] c [of 7] c [of 8] b_w10 b_w11 b_w9 b_h7 d0 [of 5] d2 [of 5] by auto
  have row2: "\<forall>i\<in>{9, 10, 11}. uint (pixels ?r2 ! i) \<in> {0, 34, 35, 36}"
    using c [of 9] c [of 10] c [of 11] range [of 2] range [of 5] range [of 8] range [of 11]
    by (auto simp: h9_def h10_def h11_def)
  have c12: "uint (pixels ?r2 ! 12) \<in> {34, 35, 36}"
    using c [of 12] range [of 11] by auto
  have row3: "\<forall>i\<in>{13, 14, 15}. uint (pixels ?r2 ! i) = 36"
    using c [of 13] c [of 14] c [of 15] by simp
  have exact: "(\<forall>j. d j \<in> {0, 1, 2}) \<and> map uint (pixels ?r2) =
      [0,
       (if \<not> R 6 then w6 else 0),
       (if \<not> R 9 then w7 else 0),
       (if R 6 then w6 else 0),
       (if R 9 then w7 else (if \<not> R 4 then w9 else 0)),
       (if \<not> R 7 then w10 else 0),
       (if \<not> R 10 then w11 else (if R 4 then w9 else 0)),
       h7,
       (if R 10 then w11 else (if \<not> R 5 then 36 - d 5 else 0)),
       (if \<not> R 8 then 36 - d 8 else h9),
       (if \<not> R 11 then 36 - d 11 else h10),
       h11,
       (if R 11 then 36 - d 11 else 36),
       36,
       36,
       36]"
    using range cells by blast
  have C: "(let d = (\<lambda>j. \<lfloor>fmul (g (2 * j)) 3\<rfloor>);
     R = (\<lambda>j. g (2 * j + 1) > 1 / 2);
     h9 = (if R 2 then 36 - d 2 else 0);
     w9 = max (h9 - d 4) 0;
     h6 = (if R 4 then w9 else 0);
     w6 = max (h6 - d 6) 0;
     h10 = (if R 5 then 36 - d 5 else 0);
     w10 = max (h10 - d 7) 0;
     h7 = (if R 7 then w10 else (if \<not> R 2 then 36 - d 2 else 0));
     w7 = max (h7 - d 9) 0;
     h11 = (if R 8 then 36 - d 8 else 0);
     w11 = max (h11 - d 10) 0
 in (\<forall>j. d j \<in> {0, 1, 2}) \<and>
    map uint (pixels (fst (update (state_of (reset r)) g))) =
      [0,
       (if \<not> R 6 then w6 else 0),
       (if \<not> R 9 then w7 else 0),
       (if R 6 then w6 else 0),
       (if R 9 then w7 else (if \<not> R 4 then w9 else 0)),
       (if \<not> R 7 then w10 else 0),
       (if \<not> R 10 then w11 else (if R 4 then w9 else 0)),
       h7,
       (if R 10 then w11 else (if \<not> R 5 then 36 - d 5 else 0)),
       (if \<not> R 8 then 36 - d 8 else h9),
       (if \<not> R 11 then 36 - d 11 else h10),
       h11,
       (if R 11 then 36 - d 11 else 36),
       36,
       36,
       36])"
    unfolding Let_def
    using exact [unfolded w11_def h11_def w7_def h7_def w10_def h10_def w6_def h6_def w9_def h9_def d_def R_def] .
  have D: "(let c = (\<lambda>i. uint (pixels (fst (update (state_of (reset r)) g)) ! i))
 in c 0 = 0 \<and>
    (\<forall>i\<in>{1, 2, 3, 4}. c i = 0 \<or> 30 \<le> c i \<and> c i \<le> 36) \<and>
    (\<forall>i\<in>{5, 6, 7, 8}. c i = 0 \<or> 32 \<le> c i \<and> c i \<le> 36) \<and>
    (\<forall>i\<in>{9, 10, 11}. c i \<in> {0, 34, 35, 36}) \<and>
    c 12 \<in> {34, 35, 36} \<and>
    (\<forall>i\<in>{13, 14, 15}. c i = 36))"
    unfolding Let_def
    using c0 row01 row12 row2 c12 row3 by (intro conjI)
  from px1 upd rest C D show ?thesis by (intro conjI)
qed

theorem end_to_end_4x4_witness:
  "scale example_renderer = 1 \<and> canvas example_renderer = \<lparr>cwidth = 4, cheight = 4\<rparr> \<and>
   double_rng (\<lambda>n. 3 / 4) \<and>
   pixels (state_of (reset example_renderer)) = [0, 0, 0, 0, 0, 0, 0, 0, 0, 0, 0, 0, 36, 36, 36, 36] \<and>
   map uint (pixels (fst (update (state_of (reset example_renderer)) (\<lambda>n. 3 / 4)))) =
     [0, 0, 0, 30, 30, 0, 32, 32, 32, 34, 34, 34, 34, 36, 36, 36]"
proof -
  have s: "scale example_renderer = 1"
    and c: "canvas example_renderer = \<lparr>cwidth = 4, cheight = 4\<rparr>"
    by (simp_all add: example_renderer_def)
  have g: "double_rng (\<lambda>n. 3 / 4)"
    by (rule double_rng_three_quarters)
  note t = end_to_end_4x4 [OF s c g]
  have a: "pixels (state_of (reset example_renderer)) = [0, 0, 0, 0, 0, 0, 0, 0, 0, 0, 0, 0, 36, 36, 36, 36]"
    using t by (rule conjunct1)
  have b: "map uint (pixels (fst (update (state_of (reset example_renderer)) (\<lambda>n. 3 / 4)))) =
     [0, 0, 0, 30, 30, 0, 32, 32, 32, 34, 34, 34, 34, 36, 36, 36]"
    using t [THEN conjunct2, THEN conjunct2, THEN conjunct2, THEN conjunct1]
    by (simp add: Let_def fmul_examples)
  from s c g a b show ?thesis by (intro conjI)
qed

text \<open>
  C6 as it is stated fails. When every draw is 3/4, each decay is 2 and each direction
  is +1: the last source overwrites row 3, column 0 with 34, and heat climbs the diagonal
  through rows 2, 1 and 0 within the one update.
\<close>

theorem single_update_counterexample:
  "scale example_renderer = 1 \<and> canvas example_renderer = \<lparr>cwidth = 4, cheight = 4\<rparr> \<and>
   double_rng (\<lambda>n. 3 / 4) \<and>
   pixels (fst (update (state_of (reset example_renderer)) (\<lambda>n. 3 / 4))) =
     [0, 0, 0, 30, 30, 0, 32, 32, 32, 34, 34, 34, 34, 36, 36, 36] \<and>
   pixels (fst (update (state_of (reset example_renderer)) (\<lambda>n. 3 / 4))) ! 12 \<noteq> 36 \<and>
   pixels (fst (update (state_of (reset example_renderer)) (\<lambda>n. 3 / 4))) ! 4 \<noteq> 0 \<and>
   pixels (fst (update (state_of (reset example_renderer)) (\<lambda>n. 3 / 4))) ! 3 \<noteq> 0"
  by (simp add: example_update_pixels double_rng_three_quarters) (simp add: example_renderer_def)

section \<open>Destinations outside the buffer, and the wrap of the last column\<close>

lemma update_empty:
  assumes "width r = 0 \<or> height r \<le> 1"
  shows "update r g = (r, g)"
proof -
  have "sources (width r) (height r) = []"
    using assms by (auto simp: sources_def column_sources_def)
  then show ?thesis
    by (simp add: update_spread_all)
qed

lemma spread_discarded:
  assumes "width r \<le> from"
    and "spread_to r from (g 1) < 0 \<or> int (length (pixels r)) \<le> spread_to r from (g 1)"
  shows "spread r from g = (r, \<lambda>n. g (n + 2))"
  using assms by (auto simp: spread_eq ta_set_def)

text \<open>
  C10. \<^verbatim>\<open>update()\<close> always returns, changes nothing but the heat buffer and leaves the
  buffer at its length; on a grid of width or height zero it changes nothing at all. A
  spread whose destination index lies outside the buffer changes no cell; this is so for
  the source in row 1, column 0 with the direction -1, whose destination index is -1.
\<close>

theorem update_stays_in_buffer:
  assumes "0 < scale r"
  shows "fst (update r g) = r\<lparr>pixels := pixels (fst (update r g))\<rparr> \<and>
    length (pixels (fst (update r g))) = length (pixels r) \<and>
    (width r = 0 \<or> height r = 0 \<longrightarrow> update r g = (r, g)) \<and>
    (\<forall>from. width r \<le> from \<and>
        (spread_to r from (g 1) < 0 \<or> int (length (pixels r)) \<le> spread_to r from (g 1)) \<longrightarrow>
        spread r from g = (r, \<lambda>n. g (n + 2))) \<and>
    (0 < width r \<and> g 1 \<le> 1 / 2 \<longrightarrow>
        spread_to r (1 * width r + 0) (g 1) = - 1 \<and>
        spread r (1 * width r + 0) g = (r, \<lambda>n. g (n + 2)))"
proof -
  have a: "fst (update r g) = r\<lparr>pixels := pixels (fst (update r g))\<rparr>"
    by (rule update_frame)
  have b: "length (pixels (fst (update r g))) = length (pixels r)"
    by (rule update_length)
  have c: "width r = 0 \<or> height r = 0 \<longrightarrow> update r g = (r, g)"
    by (auto intro: update_empty)
  have d: "\<forall>from. width r \<le> from \<and>
        (spread_to r from (g 1) < 0 \<or> int (length (pixels r)) \<le> spread_to r from (g 1)) \<longrightarrow>
        spread r from g = (r, \<lambda>n. g (n + 2))"
    by (intro allI impI, elim conjE, rule spread_discarded)
  have e: "0 < width r \<and> g 1 \<le> 1 / 2 \<longrightarrow>
        spread_to r (1 * width r + 0) (g 1) = - 1 \<and>
        spread r (1 * width r + 0) g = (r, \<lambda>n. g (n + 2))"
  proof
    assume h: "0 < width r \<and> g 1 \<le> 1 / 2"
    then have to: "spread_to r (1 * width r + 0) (g 1) = - 1"
      by (simp add: spread_to_def)
    have "width r \<le> 1 * width r + 0"
      by simp
    moreover have "spread_to r (1 * width r + 0) (g 1) < 0 \<or>
        int (length (pixels r)) \<le> spread_to r (1 * width r + 0) (g 1)"
      unfolding to by simp
    ultimately have "spread r (1 * width r + 0) g = (r, \<lambda>n. g (n + 2))"
      by (rule spread_discarded)
    with to show "spread_to r (1 * width r + 0) (g 1) = - 1 \<and>
        spread r (1 * width r + 0) g = (r, \<lambda>n. g (n + 2))" ..
  qed
  from a b c d e show ?thesis by (intro conjI)
qed

theorem update_stays_in_buffer_witness:
  "0 < scale example_renderer \<and> 0 < scale empty_renderer \<and>
   width empty_renderer = 0 \<and> height empty_renderer = 2 \<and>
   update empty_renderer (\<lambda>n. 1 / 4) = (empty_renderer, \<lambda>n. 1 / 4) \<and>
   spread_to example_renderer 4 (1 / 4) = - 1 \<and>
   spread example_renderer 4 (\<lambda>n. 1 / 4) = (example_renderer, \<lambda>n. 1 / 4) \<and>
   length (pixels (fst (update example_renderer (\<lambda>n. 1 / 4)))) = 16"
proof -
  have s: "0 < scale example_renderer" "0 < scale empty_renderer"
    by (simp_all add: example_renderer_def empty_renderer_def)
  have d: "width empty_renderer = 0" "height empty_renderer = 2"
    by code_simp+
  note t = update_stays_in_buffer [OF s(1), of "\<lambda>n. 1 / 4", unfolded example_renderer_dims]
  note t0 = update_stays_in_buffer [OF s(2), of "\<lambda>n. 1 / 4"]
  have a: "update empty_renderer (\<lambda>n. 1 / 4) = (empty_renderer, \<lambda>n. 1 / 4)"
    using t0 d by simp
  have b: "spread_to example_renderer 4 (1 / 4) = - 1"
    "spread example_renderer 4 (\<lambda>n. 1 / 4) = (example_renderer, \<lambda>n. 1 / 4)"
    using t by simp_all
  have c: "length (pixels (fst (update example_renderer (\<lambda>n. 1 / 4)))) = 16"
    using t by (simp add: example_renderer_dims)
  from s d a b c show ?thesis by (intro conjI)
qed

text \<open>
  C9. For a source in the last column of a row \<open>y\<close>, with the direction +1, the
  destination index is \<open>y * width\<close>: column 0 of the same row. So one
  \<^verbatim>\<open>update()\<close> whose last direction is +1 overwrites the bottom row's first cell with
  the value of the bottom row's last cell less the decay of the last source, which is the
  floor of the double product of its first draw and 3; that is below 36 when the cell is
  at 36 and the draw is at least one third.
\<close>

theorem last_column_wraps:
  assumes "0 < scale r" and "0 < width r"
  shows "(\<forall>y v. 1 / 2 < v \<longrightarrow>
            spread_to r (y * width r + (width r - 1)) v = int (y * width r + 0)) \<and>
    (2 \<le> height r \<and> length (pixels r) = width r * height r \<and> double_rng g \<and>
     1 / 2 < g (2 * (width r * (height r - 1) - 1) + 1) \<longrightarrow>
       uint (pixels (fst (update r g)) ! ((height r - 1) * width r + 0)) =
         max (uint (pixels r ! ((height r - 1) * width r + (width r - 1))) -
              \<lfloor>fmul (g (2 * (width r * (height r - 1) - 1))) 3\<rfloor>) 0 \<and>
       (pixels r ! ((height r - 1) * width r + (width r - 1)) = 36 \<and>
        1 / 3 \<le> g (2 * (width r * (height r - 1) - 1)) \<longrightarrow>
          uint (pixels (fst (update r g)) ! ((height r - 1) * width r + 0)) < 36))"
proof -
  have a: "\<forall>y v. 1 / 2 < v \<longrightarrow>
            spread_to r (y * width r + (width r - 1)) v = int (y * width r + 0)"
    using assms(2) by (simp add: spread_to_def of_nat_diff)
  have b: "2 \<le> height r \<and> length (pixels r) = width r * height r \<and> double_rng g \<and>
     1 / 2 < g (2 * (width r * (height r - 1) - 1) + 1) \<longrightarrow>
       uint (pixels (fst (update r g)) ! ((height r - 1) * width r + 0)) =
         max (uint (pixels r ! ((height r - 1) * width r + (width r - 1))) -
              \<lfloor>fmul (g (2 * (width r * (height r - 1) - 1))) 3\<rfloor>) 0 \<and>
       (pixels r ! ((height r - 1) * width r + (width r - 1)) = 36 \<and>
        1 / 3 \<le> g (2 * (width r * (height r - 1) - 1)) \<longrightarrow>
          uint (pixels (fst (update r g)) ! ((height r - 1) * width r + 0)) < 36)"
  proof
    let ?k = "width r * (height r - 1) - 1"
    assume h: "2 \<le> height r \<and> length (pixels r) = width r * height r \<and> double_rng g \<and>
     1 / 2 < g (2 * ?k + 1)"
    then have v: "0 \<le> g (2 * ?k)"
      by (simp add: double_rng_bounds)
    have last: "(height r - 1) * width r + (width r - 1) = width r * height r - 1"
    proof -
      have "height r = Suc (height r - 1)" using h by simp
      then have "width r * height r = width r * Suc (height r - 1)" by simp
      then have "width r * height r = (height r - 1) * width r + width r"
        by (simp add: mult.commute)
      then show ?thesis using assms(2) by linarith
    qed
    have eq: "uint (pixels (fst (update r g)) ! ((height r - 1) * width r + 0)) =
         max (uint (pixels r ! ((height r - 1) * width r + (width r - 1))) - \<lfloor>fmul (g (2 * ?k)) 3\<rfloor>) 0"
      using update_bottom_row [where r = r and g = g and x = 0 and k = "?k"] assms(2) h v(1)
      by (simp only: last) simp
    have lt: "uint (pixels (fst (update r g)) ! ((height r - 1) * width r + 0)) < 36"
      if "pixels r ! ((height r - 1) * width r + (width r - 1)) = 36" "1 / 3 \<le> g (2 * ?k)"
    proof -
      have "1 \<le> \<lfloor>fmul (g (2 * ?k)) 3\<rfloor>" using that(2) by (rule floor_fmul3_pos)
      then show ?thesis unfolding eq that(1) by simp
    qed
    from eq lt show "uint (pixels (fst (update r g)) ! ((height r - 1) * width r + 0)) =
         max (uint (pixels r ! ((height r - 1) * width r + (width r - 1))) -
              \<lfloor>fmul (g (2 * ?k)) 3\<rfloor>) 0 \<and>
       (pixels r ! ((height r - 1) * width r + (width r - 1)) = 36 \<and>
        1 / 3 \<le> g (2 * ?k) \<longrightarrow>
          uint (pixels (fst (update r g)) ! ((height r - 1) * width r + 0)) < 36)"
      by blast
  qed
  from a b show ?thesis ..
qed

theorem last_column_wraps_witness:
  "0 < scale example_renderer \<and> 0 < width example_renderer \<and> double_rng (\<lambda>n. 3 / 4) \<and>
   spread_to example_renderer 15 (3 / 4) = 12 \<and>
   pixels example_renderer ! 12 = 36 \<and>
   uint (pixels (fst (update example_renderer (\<lambda>n. 3 / 4))) ! 12) = 34"
proof -
  have s: "0 < scale example_renderer" and w: "0 < width example_renderer"
    by (simp_all add: example_renderer_dims) (simp add: example_renderer_def)
  have g: "double_rng (\<lambda>n. 3 / 4)"
    by (rule double_rng_three_quarters)
  have px: "pixels example_renderer ! 12 = 36" "pixels example_renderer ! 15 = 36"
    by (simp_all add: example_renderer_def)
  note t = last_column_wraps [OF s w, of "\<lambda>n. 3 / 4", unfolded example_renderer_dims]
  have a: "spread_to example_renderer 15 (3 / 4) = 12"
    using t [THEN conjunct1, rule_format, of "3 / 4" 3] by simp
  have b: "uint (pixels (fst (update example_renderer (\<lambda>n. 3 / 4))) ! 12) = 34"
    using t [THEN conjunct2] g by (simp add: px fmul_examples)
  from s w g a px(1) b show ?thesis by (intro conjI)
qed

section \<open>The image that render produces\<close>

lemma to_uint8_clamp_simps [simp]: "to_uint8_clamp 0 = 0" "to_uint8_clamp 255 = 255"
  by (simp_all add: to_uint8_clamp_def)

lemma uint_to_uint8_clamp:
  assumes "0 \<le> n" "n \<le> 255"
  shows "uint (to_uint8_clamp n) = n"
  using assms by (simp add: to_uint8_clamp_def uint_word_of_int take_bit_eq_mod)

lemma quad_index:
  assumes "c < 4"
  shows "(int i * 4 + int c = int k) = (k div 4 = i \<and> k mod 4 = c)"
proof
  assume "int i * 4 + int c = int k"
  then have "k = i * 4 + c" by linarith
  then show "k div 4 = i \<and> k mod 4 = c" using assms by simp
next
  assume "k div 4 = i \<and> k mod 4 = c"
  moreover have "k = 4 * (k div 4) + k mod 4" by simp
  ultimately have "k = 4 * i + c" by simp
  then show "int i * 4 + int c = int k" by simp
qed

lemma quad_indices:
  "(int i * 4 = int k) = (k div 4 = i \<and> k mod 4 = 0)"
  "(int i * 4 + 1 = int k) = (k div 4 = i \<and> k mod 4 = 1)"
  "(int i * 4 + 2 = int k) = (k div 4 = i \<and> k mod 4 = 2)"
  "(int i * 4 + 3 = int k) = (k div 4 = i \<and> k mod 4 = 3)"
  using quad_index [of 0 i k] quad_index [of 1 i k] quad_index [of 2 i k] quad_index [of 3 i k]
  by simp_all

lemma mod_4_cases: "(k::nat) mod 4 = 0 \<or> k mod 4 = 1 \<or> k mod 4 = 2 \<or> k mod 4 = 3"
proof -
  have "k mod 4 < 4" by simp
  then show ?thesis by linarith
qed

lemma render_cell_ok:
  assumes "i < length px" and "unat (px ! i) < length pal" and "length d = 4 * length px"
  shows "\<exists>d'. render_cell pal px i d = Inr d' \<and> length d' = length d \<and>
    (\<forall>k<length d. d' ! k = (if k div 4 = i then pixel_byte pal px d k else d ! k))"
proof (cases "px ! i = 0")
  case True
  let ?d' = "ta_set d (int i * 4 + 3) 0"
  have "render_cell pal px i d = Inr ?d'"
    using assms(2) True by (simp add: render_cell_def pallete_at_def Let_def)
  moreover have "?d' ! k = (if k div 4 = i then pixel_byte pal px d k else d ! k)"
    if "k < length d" for k
    using that True by (simp add: ta_set_nth quad_indices pixel_byte_def Let_def)
  ultimately show ?thesis by simp
next
  case False
  let ?c = "pal ! unat (px ! i)"
  let ?d' = "ta_set (ta_set (ta_set (ta_set d
                    (int i * 4) (to_uint8_clamp (red ?c)))
                    (int i * 4 + 1) (to_uint8_clamp (green ?c)))
                    (int i * 4 + 2) (to_uint8_clamp (blue ?c)))
                    (int i * 4 + 3) 255"
  have "render_cell pal px i d = Inr ?d'"
    using assms(2) False by (simp add: render_cell_def pallete_at_def Let_def)
  moreover have "?d' ! k = (if k div 4 = i then pixel_byte pal px d k else d ! k)"
    if "k < length d" for k
  proof -
    have nth: "?d' ! k =
       (if k div 4 = i \<and> k mod 4 = 3 then 255
        else if k div 4 = i \<and> k mod 4 = 2 then to_uint8_clamp (blue ?c)
        else if k div 4 = i \<and> k mod 4 = 1 then to_uint8_clamp (green ?c)
        else if k div 4 = i \<and> k mod 4 = 0 then to_uint8_clamp (red ?c)
        else d ! k)"
      using that by (simp add: ta_set_nth quad_indices)
    show ?thesis
      unfolding nth using False mod_4_cases [of k]
      by (auto simp: pixel_byte_def Let_def)
  qed
  ultimately show ?thesis by simp
qed

lemma render_loop_ok:
  assumes "\<forall>j<length px. unat (px ! j) < length pal" and "length d = 4 * length px"
  shows "\<exists>d'. render_loop pal px i d = Inr d' \<and> length d' = length d \<and>
    (\<forall>k<length d. d' ! k = (if i \<le> k div 4 then pixel_byte pal px d k else d ! k))"
  using assms
proof (induction pal px i d rule: render_loop.induct)
  case (1 pal px i d)
  show ?case
  proof (cases "i < length px")
    case True
    obtain d1 where c: "render_cell pal px i d = Inr d1" and l1: "length d1 = length d"
      and n1: "\<forall>k<length d. d1 ! k = (if k div 4 = i then pixel_byte pal px d k else d ! k)"
      using render_cell_ok [OF True _ "1.prems"(2)] "1.prems"(1) True by blast
    obtain d' where r: "render_loop pal px (Suc i) d1 = Inr d'" and l': "length d' = length d1"
      and n': "\<forall>k<length d1. d' ! k =
          (if Suc i \<le> k div 4 then pixel_byte pal px d1 k else d1 ! k)"
      using "1.IH" [OF True c "1.prems"(1)] l1 "1.prems"(2) by auto
    have "d' ! k = (if i \<le> k div 4 then pixel_byte pal px d k else d ! k)"
      if k: "k < length d" for k
    proof (cases "Suc i \<le> k div 4")
      case True
      then have "d1 ! k = d ! k" using n1 k by simp
      then have "pixel_byte pal px d1 k = pixel_byte pal px d k"
        by (simp add: pixel_byte_def Let_def)
      then show ?thesis using n' k l1 True by simp
    next
      case False
      then show ?thesis using n' n1 k l1 by auto
    qed
    then show ?thesis
      using True c r l' l1 by (simp add: render_loop.simps [of pal px i])
  next
    case False
    have "\<not> i \<le> k div 4" if "k < length d" for k
      using that False "1.prems"(2) by (simp add: div_less_iff_less_mult)
    then show ?thesis
      using False by (simp add: render_loop.simps [of pal px i])
  qed
qed

lemma data_blank [simp]: "data (blank w h) = replicate (w * h * 4) 0"
  by (simp add: blank_def)

lemma render_empty:
  assumes "width r = 0 \<or> height r = 0"
  shows "render r = Throw IndexSizeError (r\<lparr>offscreenCanvas := blank (width r) (height r)\<rparr>)"
  using assms by (auto simp: render_def Let_def)

lemma render_ok:
  assumes "0 < width r" and "0 < height r"
    and "length (pixels r) = width r * height r"
    and "\<forall>j<length (pixels r). unat (pixels r ! j) < length (pallete r)"
  shows "\<exists>r'. render r = Return r' \<and>
     r' = r\<lparr>offscreenCanvas := offscreenCanvas r', shown := shown r'\<rparr> \<and>
     map_option source (shown r') = Some (offscreenCanvas r') \<and>
     bwidth (offscreenCanvas r') = width r \<and> bheight (offscreenCanvas r') = height r \<and>
     length (data (offscreenCanvas r')) = 4 * length (pixels r) \<and>
     (\<forall>k<4 * length (pixels r).
        data (offscreenCanvas r') ! k =
          pixel_byte (pallete r) (pixels r) (replicate (4 * length (pixels r)) 0) k)"
proof -
  let ?d0 = "replicate (4 * length (pixels r)) (0::u8)"
  have d0: "replicate (width r * height r * 4) (0::u8) = ?d0"
    by (simp add: assms(3) mult.commute)
  obtain d where l: "render_loop (pallete r) (pixels r) 0 ?d0 = Inr d"
    and len: "length d = length ?d0"
    and nth: "\<forall>k<length ?d0. d ! k =
        (if 0 \<le> k div 4 then pixel_byte (pallete r) (pixels r) ?d0 k else ?d0 ! k)"
    using render_loop_ok [OF assms(4), of ?d0 0] by auto
  show ?thesis
    using assms(1,2) l len nth by (simp add: render_def Let_def d0)
qed

lemma pixel_byte_blank:
  assumes "i < n" "c < 4"
  shows "pixel_byte pal px (replicate (4 * n) 0) (4 * i + c) =
     (if px ! i = 0 then 0
      else if c = 0 then to_uint8_clamp (red (pal ! unat (px ! i)))
      else if c = 1 then to_uint8_clamp (green (pal ! unat (px ! i)))
      else if c = 2 then to_uint8_clamp (blue (pal ! unat (px ! i)))
      else 255)"
proof -
  have "(4 * i + c) div 4 = i" "(4 * i + c) mod 4 = c"
    using assms(2) by simp_all
  moreover have "4 * i + c < 4 * n"
    using assms by linarith
  ultimately show ?thesis
    by (simp add: pixel_byte_def Let_def)
qed

lemma render_cells:
  assumes "0 < width r" and "0 < height r"
    and "length (pixels r) = width r * height r"
    and "\<forall>j<length (pixels r). unat (pixels r ! j) < length (pallete r)"
    and "i < length (pixels r)" and "c < 4"
  shows "data (offscreenCanvas (state_of (render r))) ! (4 * i + c) =
     (if pixels r ! i = 0 then 0
      else if c = 0 then to_uint8_clamp (red (pallete r ! unat (pixels r ! i)))
      else if c = 1 then to_uint8_clamp (green (pallete r ! unat (pixels r ! i)))
      else if c = 2 then to_uint8_clamp (blue (pallete r ! unat (pixels r ! i)))
      else 255)"
proof -
  obtain r' where r': "render r = Return r'"
    and nth: "\<forall>k<4 * length (pixels r).
        data (offscreenCanvas r') ! k =
          pixel_byte (pallete r) (pixels r) (replicate (4 * length (pixels r)) 0) k"
    using render_ok [OF assms(1-4)] by blast
  have "4 * i + c < 4 * length (pixels r)"
    using assms(5,6) by linarith
  then have "data (offscreenCanvas r') ! (4 * i + c) =
      pixel_byte (pallete r) (pixels r) (replicate (4 * length (pixels r)) 0) (4 * i + c)"
    using nth by blast
  then show ?thesis
    by (simp only: r' state_of.simps pixel_byte_blank [OF assms(5,6)])
qed

lemma unat_le_36: "(v :: u8) \<le> 36 \<Longrightarrow> unat v < 37"
  by (simp add: word_le_nat_alt)

text \<open>
  C4. For every grid whose cells lie in 0..36 and every palette of 37 entries,
  \<^verbatim>\<open>render()\<close> returns when the grid has a cell, and the image has four bytes for
  each cell: all four are 0, so the alpha is 0, when the intensity is 0, whatever the
  palette holds at index 0; otherwise they are the red, green and blue of
  \<open>palette[intensity]\<close> as a clamped byte array stores them, unchanged when they lie
  in 0..255, and the alpha 255.
\<close>

theorem render_transparency:
  assumes "0 < scale r" and "length (pallete r) = 37"
    and "length (pixels r) = width r * height r"
    and "\<forall>v\<in>set (pixels r). v \<le> 36"
  shows "(0 < width r * height r \<longrightarrow>
       thrown (render r) = None \<and>
       map_option source (shown (state_of (render r))) = Some (offscreenCanvas (state_of (render r)))) \<and>
     length (data (offscreenCanvas (state_of (render r)))) = 4 * length (pixels r) \<and>
     (\<forall>i<length (pixels r).
        let img = data (offscreenCanvas (state_of (render r)));
            v = pixels r ! i;
            c = pallete r ! unat v
        in (v = 0 \<longrightarrow>
              img ! (4 * i) = 0 \<and> img ! (4 * i + 1) = 0 \<and> img ! (4 * i + 2) = 0 \<and>
              img ! (4 * i + 3) = 0) \<and>
           (v \<noteq> 0 \<longrightarrow>
              img ! (4 * i) = to_uint8_clamp (red c) \<and>
              img ! (4 * i + 1) = to_uint8_clamp (green c) \<and>
              img ! (4 * i + 2) = to_uint8_clamp (blue c) \<and>
              img ! (4 * i + 3) = 255 \<and>
              (0 \<le> red c \<and> red c \<le> 255 \<longrightarrow> uint (img ! (4 * i)) = red c) \<and>
              (0 \<le> green c \<and> green c \<le> 255 \<longrightarrow> uint (img ! (4 * i + 1)) = green c) \<and>
              (0 \<le> blue c \<and> blue c \<le> 255 \<longrightarrow> uint (img ! (4 * i + 2)) = blue c)))"
proof (cases "0 < width r * height r")
  case False
  then have e: "width r = 0 \<or> height r = 0" by simp
  then have "pixels r = []" using assms(3) by auto
  then show ?thesis
    using False e by (auto simp: render_empty)
next
  case True
  then have wh: "0 < width r" "0 < height r" by simp_all
  have pal: "\<forall>j<length (pixels r). unat (pixels r ! j) < length (pallete r)"
    using assms(2,4) by (simp add: unat_le_36)
  obtain r' where r': "render r = Return r'"
    and sh: "map_option source (shown r') = Some (offscreenCanvas r')"
    and len: "length (data (offscreenCanvas r')) = 4 * length (pixels r)"
    using render_ok [OF wh assms(3) pal] by blast
  note cells = render_cells [OF wh assms(3) pal]
  have a: "0 < width r * height r \<longrightarrow>
       thrown (render r) = None \<and>
       map_option source (shown (state_of (render r))) = Some (offscreenCanvas (state_of (render r)))"
    using sh by (simp add: r')
  have b: "length (data (offscreenCanvas (state_of (render r)))) = 4 * length (pixels r)"
    using len by (simp add: r')
  have c: "\<forall>i<length (pixels r).
        let img = data (offscreenCanvas (state_of (render r)));
            v = pixels r ! i;
            c = pallete r ! unat v
        in (v = 0 \<longrightarrow>
              img ! (4 * i) = 0 \<and> img ! (4 * i + 1) = 0 \<and> img ! (4 * i + 2) = 0 \<and>
              img ! (4 * i + 3) = 0) \<and>
           (v \<noteq> 0 \<longrightarrow>
              img ! (4 * i) = to_uint8_clamp (red c) \<and>
              img ! (4 * i + 1) = to_uint8_clamp (green c) \<and>
              img ! (4 * i + 2) = to_uint8_clamp (blue c) \<and>
              img ! (4 * i + 3) = 255 \<and>
              (0 \<le> red c \<and> red c \<le> 255 \<longrightarrow> uint (img ! (4 * i)) = red c) \<and>
              (0 \<le> green c \<and> green c \<le> 255 \<longrightarrow> uint (img ! (4 * i + 1)) = green c) \<and>
              (0 \<le> blue c \<and> blue c \<le> 255 \<longrightarrow> uint (img ! (4 * i + 2)) = blue c))"
  proof (intro allI impI)
    fix i assume i: "i < length (pixels r)"
    show "let img = data (offscreenCanvas (state_of (render r)));
            v = pixels r ! i;
            c = pallete r ! unat v
        in (v = 0 \<longrightarrow>
              img ! (4 * i) = 0 \<and> img ! (4 * i + 1) = 0 \<and> img ! (4 * i + 2) = 0 \<and>
              img ! (4 * i + 3) = 0) \<and>
           (v \<noteq> 0 \<longrightarrow>
              img ! (4 * i) = to_uint8_clamp (red c) \<and>
              img ! (4 * i + 1) = to_uint8_clamp (green c) \<and>
              img ! (4 * i + 2) = to_uint8_clamp (blue c) \<and>
              img ! (4 * i + 3) = 255 \<and>
              (0 \<le> red c \<and> red c \<le> 255 \<longrightarrow> uint (img ! (4 * i)) = red c) \<and>
              (0 \<le> green c \<and> green c \<le> 255 \<longrightarrow> uint (img ! (4 * i + 1)) = green c) \<and>
              (0 \<le> blue c \<and> blue c \<le> 255 \<longrightarrow> uint (img ! (4 * i + 2)) = blue c))"
      unfolding Let_def
      using cells [OF i, of 0] cells [OF i, of 1] cells [OF i, of 2] cells [OF i, of 3]
      by (simp add: uint_to_uint8_clamp)
  qed
  from a b c show ?thesis by (intro conjI)
qed

theorem render_transparency_witness:
  "0 < scale example_renderer \<and> length (pallete example_renderer) = 37 \<and>
   pixels example_renderer ! 0 = 0 \<and> pixels example_renderer ! 12 = 36 \<and>
   thrown (render example_renderer) = None \<and>
   data (offscreenCanvas (state_of (render example_renderer))) ! 3 = 0 \<and>
   uint (data (offscreenCanvas (state_of (render example_renderer))) ! 48) = 0xFF \<and>
   data (offscreenCanvas (state_of (render example_renderer))) ! 51 = 255"
proof -
  have s: "0 < scale example_renderer"
    and p: "length (pallete example_renderer) = 37"
    and l: "length (pixels example_renderer) = width example_renderer * height example_renderer"
    and v: "\<forall>v\<in>set (pixels example_renderer). v \<le> 36"
    and px: "pixels example_renderer ! 0 = 0" "pixels example_renderer ! 12 = 36"
    by (simp_all add: example_renderer_dims)
      (simp_all add: example_renderer_def DEFAULT_PALLETE_def)
  have c: "pallete example_renderer ! 36 = rgb 0xFF 0xFF 0xFF"
    by (simp add: example_renderer_def DEFAULT_PALLETE_def)
  note t = render_transparency [OF s p l v, unfolded example_renderer_dims]
  have a: "thrown (render example_renderer) = None"
    using t by simp
  note cells = t [THEN conjunct2, THEN conjunct2, rule_format, unfolded Let_def]
  have b: "data (offscreenCanvas (state_of (render example_renderer))) ! 3 = 0"
    using cells [of 0] by (simp add: px)
  have d: "uint (data (offscreenCanvas (state_of (render example_renderer))) ! 48) = 0xFF"
    "data (offscreenCanvas (state_of (render example_renderer))) ! 51 = 255"
    using cells [of 12] by (simp_all add: px c rgb_def)
  from s p px a b d show ?thesis by (intro conjI)
qed

section \<open>Construction, ticks and the palette\<close>

lemma render_offscreenCanvas_irrelevant: "render (r\<lparr>offscreenCanvas := b\<rparr>) = render r"
  by (simp add: render_def Let_def width_def height_def split: sum.splits)

lemma reset_pixels_irrelevant: "reset (r\<lparr>pixels := p\<rparr>) = reset r"
  by (simp add: reset_def width_def height_def)

lemma reset_as_render: "reset r = render (r\<lparr>pixels := pixels (state_of (reset r))\<rparr>)"
proof -
  let ?r0 = "r\<lparr>pixels := replicate (width r * height r) 0\<rparr>"
  have "reset_row ?r0 0 = ?r0\<lparr>pixels := pixels (reset_row ?r0 0)\<rparr>"
    by (rule reset_row_frame)
  also have "\<dots> = r\<lparr>pixels := pixels (reset_row ?r0 0)\<rparr>"
    by simp
  finally have "reset r = render (r\<lparr>pixels := pixels (reset_row ?r0 0)\<rparr>)"
    by (simp add: reset_def)
  moreover have "pixels (state_of (reset r)) = pixels (reset_row ?r0 0)"
    by (simp add: reset_def)
  ultimately show ?thesis by simp
qed

lemma reset_ok:
  assumes "0 < width r" and "0 < height r" and "37 \<le> length (pallete r)"
  shows "\<exists>r'. reset r = Return r' \<and> pixels r' = pixels (state_of (reset r)) \<and>
    canvas r' = canvas r \<and> scale r' = scale r \<and> pallete r' = pallete r"
proof -
  let ?R = "r\<lparr>pixels := pixels (state_of (reset r))\<rparr>"
  have wh: "width ?R = width r" "height ?R = height r"
    by (simp_all add: width_def height_def)
  have len: "length (pixels ?R) = width ?R * height ?R"
    using reset_pixels [of r] by (simp add: wh)
  have "\<forall>j<length (pixels ?R). pixels ?R ! j \<le> 36"
    using reset_range [of r] by simp
  then have pal: "\<forall>j<length (pixels ?R). unat (pixels ?R ! j) < length (pallete ?R)"
    using assms(3) unat_le_36 by fastforce
  obtain r' where r': "render ?R = Return r'"
    and fr: "r' = ?R\<lparr>offscreenCanvas := offscreenCanvas r', shown := shown r'\<rparr>"
    using render_ok [OF _ _ len pal] assms(1,2) wh by auto
  obtain b s where "r' = ?R\<lparr>offscreenCanvas := b, shown := s\<rparr>"
    using fr by blast
  then have "pixels r' = pixels ?R \<and> canvas r' = canvas r \<and> scale r' = scale r \<and>
      pallete r' = pallete r"
    by simp
  then show ?thesis
    using r' by (subst reset_as_render) simp
qed

lemma new_Renderer_reset:
  "new_Renderer cv sc pal =
     reset \<lparr>scale = sc, pallete = pal, canvas = cv, offscreenCanvas = blank 300 150,
            shown = None, pixels = []\<rparr>"
  by (simp add: new_Renderer_def Let_def reset_pixels_irrelevant)

lemma new_Renderer_example:
  "new_Renderer example_canvas 1 pal = render (example_renderer\<lparr>pallete := pal\<rparr>)"
proof -
  let ?r = "\<lparr>scale = 1, pallete = pal, canvas = example_canvas, offscreenCanvas = blank 300 150,
            shown = None, pixels = []\<rparr>"
  have "width ?r = width example_renderer" "height ?r = height example_renderer"
    by (simp_all add: width_def height_def example_renderer_def example_canvas_def)
  then have "pixels (state_of (reset ?r)) = pixels (state_of (reset example_renderer))"
    by (rule reset_pixels_cong)
  then have px: "pixels (state_of (reset ?r)) = pixels example_renderer"
    by (simp only: example_reset_pixels) (simp add: example_renderer_def)
  have "new_Renderer example_canvas 1 pal = reset ?r"
    by (simp add: new_Renderer_reset)
  also have "\<dots> = render (?r\<lparr>pixels := pixels (state_of (reset ?r))\<rparr>)"
    by (rule reset_as_render)
  also have "\<dots> = render (?r\<lparr>pixels := pixels example_renderer\<rparr>)"
    by (simp only: px)
  also have "?r\<lparr>pixels := pixels example_renderer\<rparr> =
      example_renderer\<lparr>pallete := pal, offscreenCanvas := blank 300 150\<rparr>"
    by (simp add: example_renderer_def example_canvas_def)
  finally show ?thesis
    by (simp add: render_offscreenCanvas_irrelevant)
qed

lemma update_range_36:
  assumes "valid_rng g" and "\<forall>v\<in>set (pixels r). v \<le> 36"
  shows "\<forall>j<length (pixels (fst (update r g))). pixels (fst (update r g)) ! j \<le> 36"
  using update_range [OF assms] by simp

lemma update_fields:
  "canvas (fst (update r g)) = canvas r" "scale (fst (update r g)) = scale r"
  "pallete (fst (update r g)) = pallete r"
  "width (fst (update r g)) = width r" "height (fst (update r g)) = height r"
proof -
  obtain p where "fst (update r g) = r\<lparr>pixels := p\<rparr>"
    using update_frame by blast
  then show "canvas (fst (update r g)) = canvas r" "scale (fst (update r g)) = scale r"
    "pallete (fst (update r g)) = pallete r"
    "width (fst (update r g)) = width r" "height (fst (update r g)) = height r"
    by (simp_all add: width_def height_def)
qed

lemma animate_bad_pallete:
  assumes "length (pallete_var c) \<noteq> 37"
  shows "animate c g = Throw TypeError (c, g)"
  using assms by (simp add: animate_def set_pallete_def)

lemma animate_ok:
  assumes "length (pallete_var c) = 37"
    and "0 < width (renderer c)" and "0 < height (renderer c)"
    and "length (pixels (renderer c)) = width (renderer c) * height (renderer c)"
    and "\<forall>v\<in>set (pixels (renderer c)). v \<le> 36" and "valid_rng g"
  shows "animate c g =
     Return (c\<lparr>renderer := state_of (render (fst (update ((renderer c)\<lparr>pallete := pallete_var c\<rparr>) g))),
               issued := Suc (issued c),
               pending := (Suc (issued c), interval c) # pending c,
               id_var := Some (Suc (issued c))\<rparr>,
             snd (update ((renderer c)\<lparr>pallete := pallete_var c\<rparr>) g)) \<and>
     thrown (render (fst (update ((renderer c)\<lparr>pallete := pallete_var c\<rparr>) g))) = None"
proof -
  let ?r1 = "(renderer c)\<lparr>pallete := pallete_var c\<rparr>"
  let ?r2 = "fst (update ?r1 g)"
  have wh1: "width ?r1 = width (renderer c)" "height ?r1 = height (renderer c)"
    by (simp_all add: width_def height_def)
  have wh: "0 < width ?r2" "0 < height ?r2"
    using assms(2,3) by (simp_all add: update_fields wh1)
  have len: "length (pixels ?r2) = width ?r2 * height ?r2"
    using assms(4) by (simp add: update_fields wh1)
  have "\<forall>j<length (pixels ?r2). pixels ?r2 ! j \<le> 36"
    using assms(5,6) by (intro update_range_36) simp_all
  then have pal: "\<forall>j<length (pixels ?r2). unat (pixels ?r2 ! j) < length (pallete ?r2)"
    using assms(1) unat_le_36 by (fastforce simp: update_fields)
  obtain r3 where r3: "render ?r2 = Return r3"
    using render_ok [OF wh len pal] by blast
  show ?thesis
    using assms(1) r3
    by (simp add: animate_def set_pallete_def setTimeout_def Let_def case_prod_beta)
qed

lemma render_pallete [simp]: "pallete (state_of (render r)) = pallete r"
  by (simp add: render_def Let_def split: sum.splits)

lemma render_dims [simp]:
  "width (state_of (render r)) = width r" "height (state_of (render r)) = height r"
  by (simp_all add: width_def height_def)

lemma reset_example: "reset example_renderer = render example_renderer"
proof -
  have "example_renderer\<lparr>pixels := pixels (state_of (reset example_renderer))\<rparr> = example_renderer"
    by (simp only: example_reset_pixels) (simp add: example_renderer_def)
  then show ?thesis
    using reset_as_render [of example_renderer] by (simp only:)
qed

lemma example_renderer_range: "\<forall>v\<in>set (pixels example_renderer). v \<le> 36"
  by (simp add: example_renderer_def)

lemma length_DEFAULT_PALLETE: "length DEFAULT_PALLETE = 37"
  by (simp add: DEFAULT_PALLETE_def)

lemma range_pallete:
  fixes px :: "u8 list"
  assumes "\<forall>v\<in>set px. v \<le> 36" and "37 \<le> length pal"
  shows "\<forall>j<length px. unat (px ! j) < length pal"
proof (intro allI impI)
  fix j assume "j < length px"
  then have "px ! j \<le> 36" using assms(1) by simp
  then have "unat (px ! j) < 37" by (rule unat_le_36)
  then show "unat (px ! j) < length pal" using assms(2) by linarith
qed

lemma burn_example:
  assumes "valid_rng g"
  shows "burn example_canvas example_options g =
    Inr (\<lparr>interval = 30, pallete_var = DEFAULT_PALLETE, id_var = Some 1,
          renderer = state_of (render (fst (update (state_of (reset example_renderer)) g))),
          issued = 1, pending = [(1, 30)]\<rparr>,
         snd (update (state_of (reset example_renderer)) g))"
proof -
  let ?r0 = "state_of (render example_renderer)"
  let ?c0 = "\<lparr>interval = 30, pallete_var = DEFAULT_PALLETE, id_var = None,
               renderer = ?r0, issued = 0, pending = []\<rparr>"
  have pal: "example_renderer\<lparr>pallete := DEFAULT_PALLETE\<rparr> = example_renderer"
    by (simp add: example_renderer_def)
  have ex: "length (pixels example_renderer) = width example_renderer * height example_renderer"
    "0 < width example_renderer" "0 < height example_renderer"
    by (simp_all add: example_renderer_dims)
  have p37: "\<forall>j<length (pixels example_renderer).
      unat (pixels example_renderer ! j) < length (pallete example_renderer)"
  proof (rule range_pallete [OF example_renderer_range])
    show "37 \<le> length (pallete example_renderer)"
      by (simp add: example_renderer_def length_DEFAULT_PALLETE)
  qed
  obtain r' where "render example_renderer = Return r'"
    using render_ok [OF ex(2,3,1) p37] by blast
  then have new: "new_Renderer example_canvas 1 DEFAULT_PALLETE = Return ?r0"
    by (simp add: new_Renderer_example pal)
  have r0p: "?r0\<lparr>pallete := DEFAULT_PALLETE\<rparr> = ?r0"
  proof -
    have "pallete ?r0 = DEFAULT_PALLETE"
      by (simp add: example_renderer_def)
    then show ?thesis
      by (metis Renderer.surjective Renderer.update_convs(2))
  qed
  have a: "animate ?c0 g =
     Return (?c0\<lparr>renderer := state_of (render (fst (update (?r0\<lparr>pallete := DEFAULT_PALLETE\<rparr>) g))),
               issued := Suc 0, pending := [(Suc 0, 30)], id_var := Some (Suc 0)\<rparr>,
             snd (update (?r0\<lparr>pallete := DEFAULT_PALLETE\<rparr>) g))"
    using animate_ok [of ?c0 g] assms ex example_renderer_range
    by (simp add: length_DEFAULT_PALLETE)
  show ?thesis
    unfolding burn_def
    by (simp add: example_options_def new start_def a r0p reset_example)
qed

lemma animate_Return:
  assumes "animate c g = Return (c', g')"
  shows "length (pallete_var c) = 37 \<and>
    id_var c' = Some (Suc (issued c)) \<and>
    pending c' = (Suc (issued c), interval c) # pending c \<and>
    renderer c' = state_of (render (fst (update ((renderer c)\<lparr>pallete := pallete_var c\<rparr>) g))) \<and>
    thrown (render (fst (update ((renderer c)\<lparr>pallete := pallete_var c\<rparr>) g))) = None \<and>
    g' = snd (update ((renderer c)\<lparr>pallete := pallete_var c\<rparr>) g) \<and>
    interval c' = interval c \<and> pallete_var c' = pallete_var c"
  using assms
  by (auto simp: animate_def set_pallete_def setTimeout_def Let_def case_prod_beta
      split: if_splits result.splits)

lemma new_Renderer_pallete:
  assumes "new_Renderer cv sc pal = Return r"
  shows "pallete r = pal"
proof -
  have "pallete (state_of (new_Renderer cv sc pal)) = pal"
    by (subst new_Renderer_reset, subst reset_as_render) simp
  then show ?thesis using assms by simp
qed

lemma burn_Inr:
  assumes "burn cv opts g = Inr (c, g')"
  shows "\<exists>r0. new_Renderer cv (case opt_scale opts of None \<Rightarrow> 7 / 2 | Some s \<Rightarrow> s)
           (case opt_pallete opts of None \<Rightarrow> DEFAULT_PALLETE | Some p \<Rightarrow> p) = Return r0 \<and>
    id_var c = Some 1 \<and>
    pending c = [(1, interval c)] \<and>
    interval c = (case opt_interval opts of None \<Rightarrow> 30 | Some i \<Rightarrow> i) \<and>
    renderer c = state_of (render (fst (update r0 g))) \<and>
    thrown (render (fst (update r0 g))) = None \<and>
    g' = snd (update r0 g)"
proof -
  let ?sc = "case opt_scale opts of None \<Rightarrow> 7 / 2 | Some s \<Rightarrow> s"
  let ?pal = "case opt_pallete opts of None \<Rightarrow> DEFAULT_PALLETE | Some p \<Rightarrow> p"
  let ?iv = "case opt_interval opts of None \<Rightarrow> 30 | Some i \<Rightarrow> i"
  obtain r0 where new: "new_Renderer cv ?sc ?pal = Return r0"
    using assms by (cases "new_Renderer cv ?sc ?pal") (simp_all add: burn_def Let_def)
  let ?c0 = "\<lparr>interval = ?iv, pallete_var = ?pal, id_var = None,
               renderer = r0, issued = 0, pending = []\<rparr>"
  have "animate ?c0 g = Return (c, g')"
    using assms new
    by (cases "animate ?c0 g") (simp_all add: burn_def Let_def start_def)
  note a = animate_Return [OF this]
  have "pallete r0 = ?pal"
    using new by (rule new_Renderer_pallete)
  then have "r0\<lparr>pallete := ?pal\<rparr> = r0"
    by (metis Renderer.surjective Renderer.update_convs(2))
  then show ?thesis
    using a new by simp
qed

lemma render_shown: "thrown (render r) = None \<Longrightarrow> shown (state_of (render r)) \<noteq> None"
  by (simp add: render_def Let_def split: sum.splits if_splits)

lemma example_tick_renders:
  assumes "valid_rng g"
  shows "thrown (render (fst (update (state_of (reset example_renderer)) g))) = None"
proof -
  let ?r1 = "state_of (reset example_renderer)"
  let ?r2 = "fst (update ?r1 g)"
  have wh: "0 < width ?r2" "0 < height ?r2"
    by (simp_all add: update_fields reset_dims example_renderer_dims)
  have len: "length (pixels ?r2) = width ?r2 * height ?r2"
    using reset_pixels [of example_renderer]
    by (simp add: update_fields reset_dims)
  have "\<forall>v\<in>set (pixels ?r2). v \<le> 36"
    using assms reset_range by (rule update_range)
  moreover have "37 \<le> length (pallete ?r2)"
    by (simp add: update_fields reset_example) (simp add: example_renderer_def length_DEFAULT_PALLETE)
  ultimately have "\<forall>j<length (pixels ?r2). unat (pixels ?r2 ! j) < length (pallete ?r2)"
    by (rule range_pallete)
  then obtain r' where "render ?r2 = Return r'"
    using render_ok [OF wh len] by blast
  then show ?thesis by simp
qed

lemma burn_ignores_height: "burn cv (opts\<lparr>opt_height := h\<rparr>) g = burn cv opts g"
  by (simp add: burn_def)

lemma burn_bad_pallete:
  assumes "length p \<noteq> 37"
  shows "isl (burn cv (opts\<lparr>opt_pallete := Some p\<rparr>) g)"
proof -
  let ?sc = "case opt_scale opts of None \<Rightarrow> 7 / 2 | Some s \<Rightarrow> s"
  show ?thesis
  proof (cases "new_Renderer cv ?sc p")
    case (Throw e r)
    then show ?thesis by (simp add: burn_def)
  next
    case (Return r)
    then show ?thesis
      using assms by (simp add: burn_def start_def animate_bad_pallete)
  qed
qed

text \<open>
  C5, as amended. A palette whose length is not 37 is rejected where the renderer is given
  it: the renderer's \<^verbatim>\<open>pallete\<close> setter throws a \<^verbatim>\<open>TypeError\<close> and leaves the
  renderer as it was, and \<^verbatim>\<open>burn\<close> with such a palette throws and returns no
  controller. The controller's \<^verbatim>\<open>pallete\<close> setter validates nothing: it stores the
  palette and returns. The next tick, whether \<^verbatim>\<open>start()\<close> runs it or a timer does,
  then throws the \<^verbatim>\<open>TypeError\<close> before it updates, renders or schedules anything.
\<close>

theorem pallete_validation:
  assumes "length p \<noteq> 37"
  shows "set_pallete r p = Throw TypeError r \<and>
    isl (burn cv (opts\<lparr>opt_pallete := Some p\<rparr>) g) \<and>
    controller_set_pallete c p = Return (c\<lparr>pallete_var := p\<rparr>) \<and>
    animate (c\<lparr>pallete_var := p\<rparr>) g = Throw TypeError (c\<lparr>pallete_var := p\<rparr>, g) \<and>
    (id_var c = None \<longrightarrow>
       start (c\<lparr>pallete_var := p\<rparr>) g = Throw TypeError (c\<lparr>pallete_var := p\<rparr>, g)) \<and>
    (\<forall>h. h \<in> fst ` set (pending c) \<longrightarrow>
       fire (c\<lparr>pallete_var := p\<rparr>) h g =
         Throw TypeError (clearTimeout (c\<lparr>pallete_var := p\<rparr>) h, g))"
proof -
  have a: "set_pallete r p = Throw TypeError r"
    using assms by (simp add: set_pallete_def)
  have b: "isl (burn cv (opts\<lparr>opt_pallete := Some p\<rparr>) g)"
    using assms by (rule burn_bad_pallete)
  have d: "controller_set_pallete c p = Return (c\<lparr>pallete_var := p\<rparr>)"
    by (simp add: controller_set_pallete_def)
  have e: "animate (c\<lparr>pallete_var := p\<rparr>) g = Throw TypeError (c\<lparr>pallete_var := p\<rparr>, g)"
    using assms by (simp add: animate_bad_pallete)
  have f: "id_var c = None \<longrightarrow>
       start (c\<lparr>pallete_var := p\<rparr>) g = Throw TypeError (c\<lparr>pallete_var := p\<rparr>, g)"
    using e by (simp add: start_def)
  have h: "\<forall>h. h \<in> fst ` set (pending c) \<longrightarrow>
       fire (c\<lparr>pallete_var := p\<rparr>) h g =
         Throw TypeError (clearTimeout (c\<lparr>pallete_var := p\<rparr>) h, g)"
    using assms by (simp add: fire_def animate_bad_pallete clearTimeout_def)
  from a b d e f h show ?thesis by (intro conjI)
qed

theorem pallete_validation_witness:
  "length (butlast DEFAULT_PALLETE) \<noteq> 37 \<and>
   set_pallete example_renderer (butlast DEFAULT_PALLETE) = Throw TypeError example_renderer \<and>
   isl (burn example_canvas (example_options\<lparr>opt_pallete := Some (butlast DEFAULT_PALLETE)\<rparr>)
          (\<lambda>n. 3 / 4)) \<and>
   animate (example_controller\<lparr>pallete_var := butlast DEFAULT_PALLETE\<rparr>) (\<lambda>n. 3 / 4) =
     Throw TypeError (example_controller\<lparr>pallete_var := butlast DEFAULT_PALLETE\<rparr>, \<lambda>n. 3 / 4)"
proof -
  have l: "length (butlast DEFAULT_PALLETE) \<noteq> 37"
    by (simp add: length_DEFAULT_PALLETE)
  note t = pallete_validation [OF l, of example_renderer example_canvas example_options
      "\<lambda>n. 3 / 4" example_controller]
  from l t show ?thesis by blast
qed

text \<open>
  C5 as it is stated fails. On the controller that \<^verbatim>\<open>burn\<close> returned, the setter
  takes a palette of 36 entries without an error and the getter then returns it; and the constructor of the renderer takes a
  palette of 38 entries without an error and draws a frame with it.
\<close>

theorem pallete_setter_counterexample:
  "burn example_canvas example_options (\<lambda>n. 3 / 4) =
     Inr (example_controller, snd (update (state_of (reset example_renderer)) (\<lambda>n. 3 / 4))) \<and>
   length (butlast DEFAULT_PALLETE) = 36 \<and>
   thrown (controller_set_pallete example_controller (butlast DEFAULT_PALLETE)) = None \<and>
   get_pallete (state_of (controller_set_pallete example_controller (butlast DEFAULT_PALLETE))) =
     butlast DEFAULT_PALLETE \<and>
   length (DEFAULT_PALLETE @ [rgb 0 0 0]) = 38 \<and>
   thrown (new_Renderer example_canvas 1 (DEFAULT_PALLETE @ [rgb 0 0 0])) = None \<and>
   pallete (state_of (new_Renderer example_canvas 1 (DEFAULT_PALLETE @ [rgb 0 0 0]))) =
     DEFAULT_PALLETE @ [rgb 0 0 0] \<and>
   shown (state_of (new_Renderer example_canvas 1 (DEFAULT_PALLETE @ [rgb 0 0 0]))) \<noteq> None"
proof -
  let ?p = "DEFAULT_PALLETE @ [rgb 0 0 0]"
  let ?r = "example_renderer\<lparr>pallete := ?p\<rparr>"
  have wh: "0 < width ?r" "0 < height ?r" "length (pixels ?r) = width ?r * height ?r"
    using example_renderer_dims by (simp_all add: width_def height_def)
  have "\<forall>v\<in>set (pixels ?r). v \<le> 36"
    using example_renderer_range by simp
  moreover have "37 \<le> length (pallete ?r)"
    by (simp add: length_DEFAULT_PALLETE)
  ultimately have "\<forall>j<length (pixels ?r). unat (pixels ?r ! j) < length (pallete ?r)"
    by (rule range_pallete)
  then obtain r' where "render ?r = Return r'"
    using render_ok [OF wh] by blast
  then have t: "thrown (render ?r) = None" by simp
  then have "shown (state_of (render ?r)) \<noteq> None" by (rule render_shown)
  moreover have "valid_rng (\<lambda>n. 3 / 4)"
    by (simp add: valid_rng_def)
  then have "burn example_canvas example_options (\<lambda>n. 3 / 4) =
     Inr (example_controller, snd (update (state_of (reset example_renderer)) (\<lambda>n. 3 / 4)))"
    unfolding example_controller_def by (rule burn_example)
  ultimately show ?thesis
    using t
    by (simp add: new_Renderer_example length_DEFAULT_PALLETE controller_set_pallete_def
        get_pallete_def)
qed

text \<open>
  C7, as amended. The controller that \<^verbatim>\<open>burn()\<close> returns is Running: \<^verbatim>\<open>burn\<close>
  calls \<^verbatim>\<open>start()\<close> itself, so one tick (update, then render) has run on the
  constructed renderer and one timer is pending. \<^verbatim>\<open>start()\<close> does nothing when the
  controller is Running; when it is Stopped it runs one tick at once, and a tick that
  returns leaves the controller Running with its timer scheduled after the interval.
\<close>

theorem burn_starts_running:
  assumes "burn cv opts g = Inr (c, g')"
  shows "id_var c \<noteq> None \<and>
    pending c = [(the (id_var c), interval c)] \<and>
    (\<exists>r0. new_Renderer cv (case opt_scale opts of None \<Rightarrow> 7 / 2 | Some s \<Rightarrow> s)
             (case opt_pallete opts of None \<Rightarrow> DEFAULT_PALLETE | Some p \<Rightarrow> p) = Return r0 \<and>
           renderer c = state_of (render (fst (update r0 g))) \<and>
           thrown (render (fst (update r0 g))) = None \<and>
           g' = snd (update r0 g)) \<and>
    (\<forall>c0 g0. id_var c0 \<noteq> None \<longrightarrow> start c0 g0 = Return (c0, g0)) \<and>
    (\<forall>c0 g0. id_var c0 = None \<longrightarrow> start c0 g0 = animate c0 g0) \<and>
    (\<forall>c0 g0 c1 g1. animate c0 g0 = Return (c1, g1) \<longrightarrow>
       id_var c1 \<noteq> None \<and>
       pending c1 = (the (id_var c1), interval c0) # pending c0 \<and>
       renderer c1 =
         state_of (render (fst (update ((renderer c0)\<lparr>pallete := pallete_var c0\<rparr>) g0))) \<and>
       thrown (render (fst (update ((renderer c0)\<lparr>pallete := pallete_var c0\<rparr>) g0))) = None)"
proof -
  obtain r0 where r0: "new_Renderer cv (case opt_scale opts of None \<Rightarrow> 7 / 2 | Some s \<Rightarrow> s)
           (case opt_pallete opts of None \<Rightarrow> DEFAULT_PALLETE | Some p \<Rightarrow> p) = Return r0"
    and c: "id_var c = Some 1" "pending c = [(1, interval c)]"
      "renderer c = state_of (render (fst (update r0 g)))"
      "thrown (render (fst (update r0 g))) = None" "g' = snd (update r0 g)"
    using burn_Inr [OF assms] by blast
  have a: "id_var c \<noteq> None" "pending c = [(the (id_var c), interval c)]"
    using c by simp_all
  have b: "\<exists>r0. new_Renderer cv (case opt_scale opts of None \<Rightarrow> 7 / 2 | Some s \<Rightarrow> s)
             (case opt_pallete opts of None \<Rightarrow> DEFAULT_PALLETE | Some p \<Rightarrow> p) = Return r0 \<and>
           renderer c = state_of (render (fst (update r0 g))) \<and>
           thrown (render (fst (update r0 g))) = None \<and>
           g' = snd (update r0 g)"
    using r0 c by blast
  have d: "\<forall>c0 g0. id_var c0 \<noteq> None \<longrightarrow> start c0 g0 = Return (c0, g0)"
    by (simp add: start_def)
  have e: "\<forall>c0 g0. id_var c0 = None \<longrightarrow> start c0 g0 = animate c0 g0"
    by (simp add: start_def)
  have f: "\<forall>c0 g0 c1 g1. animate c0 g0 = Return (c1, g1) \<longrightarrow>
       id_var c1 \<noteq> None \<and>
       pending c1 = (the (id_var c1), interval c0) # pending c0 \<and>
       renderer c1 =
         state_of (render (fst (update ((renderer c0)\<lparr>pallete := pallete_var c0\<rparr>) g0))) \<and>
       thrown (render (fst (update ((renderer c0)\<lparr>pallete := pallete_var c0\<rparr>) g0))) = None"
    using animate_Return by fastforce
  from a b d e f show ?thesis by (intro conjI)
qed

theorem burn_starts_running_witness:
  "burn example_canvas example_options (\<lambda>n. 3 / 4) =
    Inr (\<lparr>interval = 30, pallete_var = DEFAULT_PALLETE, id_var = Some 1,
          renderer = state_of (render (fst (update (state_of (reset example_renderer)) (\<lambda>n. 3 / 4)))),
          issued = 1, pending = [(1, 30)]\<rparr>,
         snd (update (state_of (reset example_renderer)) (\<lambda>n. 3 / 4))) \<and>
   id_var \<lparr>interval = 30, pallete_var = DEFAULT_PALLETE, id_var = Some 1,
          renderer = state_of (render (fst (update (state_of (reset example_renderer)) (\<lambda>n. 3 / 4)))),
          issued = 1, pending = [(1, 30)]\<rparr> \<noteq> None"
proof -
  have g: "valid_rng (\<lambda>n. 3 / 4)"
    by (simp add: valid_rng_def)
  note b = burn_example [OF g]
  note t = burn_starts_running [OF b, THEN conjunct1]
  from b t show ?thesis by (rule conjI)
qed

text \<open>
  C7 as it is stated fails: on the 4 by 4 canvas, the controller that \<^verbatim>\<open>burn()\<close>
  returns holds a timer handle, a timer is pending, and the grid is the grid after one
  update, already drawn.
\<close>

theorem burn_not_stopped_counterexample:
  "(case burn example_canvas example_options (\<lambda>n. 3 / 4) of
      Inl e \<Rightarrow> False
    | Inr (c, g) \<Rightarrow>
        id_var c = Some 1 \<and> pending c = [(1, 30)] \<and>
        pixels (renderer c) = [0, 0, 0, 30, 30, 0, 32, 32, 32, 34, 34, 34, 34, 36, 36, 36] \<and>
        shown (renderer c) \<noteq> None)"
proof -
  have g: "valid_rng (\<lambda>n. 3 / 4)"
    by (simp add: valid_rng_def)
  have "shown (state_of (render (fst (update (state_of (reset example_renderer)) (\<lambda>n. 3 / 4))))) \<noteq> None"
    using example_tick_renders [OF g] by (rule render_shown)
  then show ?thesis
    by (simp add: burn_example [OF g] example_update_pixels)
qed

text \<open>
  C8. The code does not do what the claim and the documentation of the option in
  \<^verbatim>\<open>types.ts\<close> say: \<^verbatim>\<open>burn\<close> never reads the \<^verbatim>\<open>height\<close> option. With a height
  of 2 asked for on a canvas 4 pixels high at scale 1, the grid is 4 rows high, as it is
  without the option.
\<close>

theorem height_option_ignored:
  "opt_height example_options = Some 2 \<and> cheight example_canvas = 4 \<and>
   opt_scale example_options = Some 1 \<and>
   (case burn example_canvas example_options (\<lambda>n. 3 / 4) of
      Inl e \<Rightarrow> False
    | Inr (c, g) \<Rightarrow> height (renderer c) = 4 \<and> length (pixels (renderer c)) = 16) \<and>
   burn example_canvas example_options (\<lambda>n. 3 / 4) =
     burn example_canvas (example_options\<lparr>opt_height := None\<rparr>) (\<lambda>n. 3 / 4)"
proof -
  have g: "valid_rng (\<lambda>n. 3 / 4)"
    by (simp add: valid_rng_def)
  have "height (state_of (render (fst (update (state_of (reset example_renderer)) (\<lambda>n. 3 / 4))))) = 4"
    by (simp add: update_fields reset_dims example_renderer_dims)
  then have "case burn example_canvas example_options (\<lambda>n. 3 / 4) of
      Inl e \<Rightarrow> False
    | Inr (c, g) \<Rightarrow> height (renderer c) = 4 \<and> length (pixels (renderer c)) = 16"
    by (simp add: burn_example [OF g] example_update_pixels)
  moreover have "burn example_canvas example_options (\<lambda>n. 3 / 4) =
     burn example_canvas (example_options\<lparr>opt_height := None\<rparr>) (\<lambda>n. 3 / 4)"
    by (simp add: burn_ignores_height)
  ultimately show ?thesis
    by (simp add: example_options_def example_canvas_def)
qed

end
